theory Spec2Isabelle
  imports Main "HOL-Library.Multiset" "HOL-Library.Monad_Syntax" "HOL-Library.AList"
begin

section \<open>Data model (src/app/models/student.model.ts)\<close>

text \<open>
  A \<open>Student\<close> has a numeric \<open>id\<close> (named \<open>sid\<close> here, \<open>id\<close> being the identity
  function of HOL), a gender and the \<open>isLeader\<close> flag. A \<open>Group\<close> carries an id, a name
  and its students; the grouping code only ever reads and writes the \<open>students\<close> array
  of a group and the number of groups, so a group is modelled by its list of students
  and the group array by a list of such lists. Numbers are unbounded integers: the
  rounding of IEEE doubles above \<open>2^53\<close> is outside the model.
\<close>

datatype gender = Male | Female

record student =
  sid :: int
  gender :: gender
  isLeader :: bool

type_synonym groups = "student list list"

subsection \<open>The random source\<close>

text \<open>
  The code draws randomness in two ways. \<open>xs.sort(() => Math.random() - 0.5)\<close>
  returns an arrangement of \<open>xs\<close> that depends on the random values and on the sort
  algorithm of the engine: \<open>shuf rs site xs\<close> is that arrangement at the call site
  \<open>site\<close>. \<open>Math.floor(Math.random() * (i + 1))\<close> in the Fisher-Yates loop of
  GenderRatioHandler is \<open>draw rs site i\<close>. A random source is \<open>fair\<close> when every
  shuffle is a permutation of its argument and every draw is in range. The source that
  returns 0.5 on every call makes every comparator return 0, so that the (stable) sort
  keeps the order, and draws \<open>floor (0.5 * (i + 1))\<close>.
\<close>

datatype site =
    BlockShuffle nat | BlockRest | SameRest | DiffRest
  | GenderMales | GenderFemales | EqualMales | EqualFemales

record randsrc =
  shuf :: "site \<Rightarrow> student list \<Rightarrow> student list"
  draw :: "site \<Rightarrow> nat \<Rightarrow> nat"

definition fair :: "randsrc \<Rightarrow> bool" where
  "fair rs \<longleftrightarrow> (\<forall>k xs. mset (shuf rs k xs) = mset xs) \<and> (\<forall>k i. draw rs k i \<le> i)"

definition midpoint :: randsrc where
  "midpoint = \<lparr> shuf = (\<lambda>k xs. xs), draw = (\<lambda>k i. (i + 1) div 2) \<rparr>"

subsection \<open>Sorting with a comparator\<close>

text \<open>
  \<open>Array.prototype.sort\<close> is stable; with a consistent comparator its result is the
  stable insertion sort below.
\<close>

fun insortBy :: "('a \<Rightarrow> 'a \<Rightarrow> int) \<Rightarrow> 'a \<Rightarrow> 'a list \<Rightarrow> 'a list" where
  "insortBy cmp x [] = [x]"
| "insortBy cmp x (y # ys) = (if cmp x y \<le> 0 then x # y # ys else y # insortBy cmp x ys)"

definition sortBy :: "('a \<Rightarrow> 'a \<Rightarrow> int) \<Rightarrow> 'a list \<Rightarrow> 'a list" where
  "sortBy cmp xs = foldr (insortBy cmp) xs []"

definition byId :: "student \<Rightarrow> student \<Rightarrow> int" where
  "byId a b = sid a - sid b"

section \<open>The final equalizer (StudentService.forceEqualDistribution)\<close>

text \<open>
  \<open>groups[i].students.push(s)\<close>: a \<open>TypeError\<close> (\<open>None\<close>) when \<open>groups[i]\<close> is
  undefined.
\<close>

definition pushTo :: "nat \<Rightarrow> student \<Rightarrow> groups \<Rightarrow> groups option" where
  "pushTo i s gs = (if i < length gs then Some (gs[i := gs ! i @ [s]]) else None)"

text \<open>
  The index \<open>maleIndex\<close> (\<open>femaleIndex\<close>) into the shuffled pool is represented by the
  suffix of the pool that has not been handed out yet.
\<close>

fun giveOneEach :: "student list \<Rightarrow> groups \<Rightarrow> groups \<times> student list" where
  "giveOneEach ms [] = ([], ms)"
| "giveOneEach [] (g # gs) = (g # gs, [])"
| "giveOneEach (m # ms) (g # gs) =
     (let (gs', r) = giveOneEach ms gs in ((g @ [m]) # gs', r))"

fun maleLoop :: "nat \<Rightarrow> student list \<Rightarrow> nat \<Rightarrow> groups \<Rightarrow> groups option" where
  "maleLoop n [] cur gs = Some gs"
| "maleLoop n (m # ms) cur gs =
     (case pushTo cur m gs of None \<Rightarrow> None
      | Some gs' \<Rightarrow> maleLoop n ms ((cur + 1) mod n) gs')"

definition targetSize :: "nat \<Rightarrow> nat \<Rightarrow> nat \<Rightarrow> nat" where
  "targetSize baseSize extra i = baseSize + (if i < extra then 1 else 0)"

definition groupOpen :: "nat \<Rightarrow> nat \<Rightarrow> groups \<Rightarrow> nat \<Rightarrow> bool" where
  "groupOpen baseSize extra gs i \<longleftrightarrow> length (gs ! i) < targetSize baseSize extra i"

definition allGroupsFull :: "nat \<Rightarrow> nat \<Rightarrow> groups \<Rightarrow> bool" where
  "allGroupsFull baseSize extra gs \<longleftrightarrow>
     (\<forall>i \<in> set [0..<length gs]. \<not> groupOpen baseSize extra gs i)"

function femaleLoop ::
  "nat \<Rightarrow> nat \<Rightarrow> student list \<Rightarrow> nat \<Rightarrow> groups \<Rightarrow> (groups \<times> student list) option" where
  "femaleLoop baseSize extra fs cur gs =
     (case fs of
        [] \<Rightarrow> Some (gs, [])
      | f # rest \<Rightarrow>
          if cur < length gs then
            (let placed = groupOpen baseSize extra gs cur;
                 gs' = (if placed then gs[cur := gs ! cur @ [f]] else gs);
                 fs' = (if placed then rest else fs);
                 cur' = (cur + 1) mod length gs
             in if allGroupsFull baseSize extra gs' then Some (gs', fs')
                else femaleLoop baseSize extra fs' cur' gs')
          else None)"
  by pat_completeness auto

lemma least_shift:
  assumes ex: "\<exists>j<length gs. groupOpen b e gs j" and cur: "cur < length gs"
    and full: "\<not> groupOpen b e gs cur"
  shows "(LEAST k. groupOpen b e gs (((cur + 1) mod length gs + k) mod length gs))
       < (LEAST k. groupOpen b e gs ((cur + k) mod length gs))"
proof -
  let ?n = "length gs"
  let ?P = "\<lambda>k. groupOpen b e gs ((cur + k) mod ?n)"
  from ex obtain j where j: "j < ?n" "groupOpen b e gs j" by blast
  have "?P ((j + ?n - cur) mod ?n)"
  proof -
    have "(cur + (j + ?n - cur) mod ?n) mod ?n = (cur + (j + ?n - cur)) mod ?n"
      by (simp add: mod_add_right_eq)
    also have "\<dots> = (j + ?n) mod ?n" using cur j by simp
    also have "\<dots> = j" using j by simp
    finally show ?thesis using j by simp
  qed
  moreover have "\<not> ?P 0" using full cur by simp
  ultimately have "(LEAST k. ?P k) = Suc (LEAST m. ?P (Suc m))"
    by (rule Least_Suc)
  moreover have "\<And>m. ((cur + 1) mod ?n + m) mod ?n = (cur + Suc m) mod ?n"
    by (simp add: mod_add_left_eq)
  ultimately show ?thesis by simp
qed

text \<open>
  The loop ends: a pass either hands a female out, or leaves the groups as they are and
  moves the pointer one step closer to a group below its target (there is one, or the
  \<open>allGroupsFull\<close> check would have left the loop).
\<close>

termination femaleLoop
proof (relation "measures [\<lambda>(b, e, fs, cur, gs). length fs,
    \<lambda>(b, e, fs, cur, gs). (LEAST k. groupOpen b e gs ((cur + k) mod length gs))]", goal_cases)
  case 1
  then show ?case by simp
next
  case (2 b e fs cur gs f rest placed gs' fs' cur')
  show ?case
  proof (cases placed)
    case True
    with 2 show ?thesis by simp
  next
    case False
    with 2 have eq: "gs' = gs" "fs' = fs" by simp_all
    from 2 False have full: "\<not> groupOpen b e gs cur" by simp
    from 2 eq have "\<exists>j<length gs. groupOpen b e gs j"
      by (auto simp: allGroupsFull_def)
    from least_shift[OF this \<open>cur < length gs\<close> full] 2 eq
    show ?thesis by simp
  qed
qed

declare femaleLoop.simps [simp del]

text \<open>
  The last pass of \<open>forceEqualDistribution\<close>: a group below its target takes students
  that are still left, males first.
\<close>

fun fillGroup ::
  "nat \<Rightarrow> student list \<Rightarrow> student list \<Rightarrow> student list
    \<Rightarrow> student list \<times> student list \<times> student list" where
  "fillGroup t g (m # ms) fs =
     (if length g < t then fillGroup t (g @ [m]) ms fs else (g, m # ms, fs))"
| "fillGroup t g [] (f # fs) =
     (if length g < t then fillGroup t (g @ [f]) [] fs else (g, [], f # fs))"
| "fillGroup t g [] [] = (g, [], [])"

fun fillGroups ::
  "nat \<Rightarrow> nat \<Rightarrow> nat \<Rightarrow> groups \<Rightarrow> student list \<Rightarrow> student list \<Rightarrow> groups" where
  "fillGroups baseSize extra i [] ms fs = []"
| "fillGroups baseSize extra i (g # gs) ms fs =
     (let (g', ms', fs') = fillGroup (targetSize baseSize extra i) g ms fs
      in sortBy byId g' # fillGroups baseSize extra (Suc i) gs ms' fs')"

definition isAssigned :: "student list \<Rightarrow> student \<Rightarrow> bool" where
  "isAssigned assigned s \<longleftrightarrow> sid s \<in> sid ` set assigned"

text \<open>
  \<open>forceEqualDistribution(groups, allStudents)\<close>. With no group at all \<open>baseSize\<close> and
  \<open>extra\<close> are \<open>Infinity\<close> or \<open>NaN\<close> in the code; they are then only used by
  \<open>targetSizes\<close>, which is empty, so the values of \<open>div\<close> and \<open>mod\<close> by zero do not
  matter. The result is \<open>None\<close> when the code throws.
\<close>

definition studentsToDistribute :: "groups \<Rightarrow> student list \<Rightarrow> student list" where
  "studentsToDistribute groups allStudents =
     (let assignedStudents = concat groups;
          unassignedStudents = filter (\<lambda>s. \<not> isAssigned assignedStudents s) allStudents
      in assignedStudents @ unassignedStudents)"

definition forceEqualDistribution :: "randsrc \<Rightarrow> groups \<Rightarrow> student list \<Rightarrow> groups option" where
  "forceEqualDistribution rs groups allStudents =
     (let toDistribute = studentsToDistribute groups allStudents;
          maleStudents = shuf rs EqualMales (filter (\<lambda>s. gender s = Male) toDistribute);
          femaleStudents = shuf rs EqualFemales (filter (\<lambda>s. gender s = Female) toDistribute);
          totalStudents = length toDistribute;
          groupCount = length groups;
          baseSize = totalStudents div groupCount;
          extra = totalStudents mod groupCount;
          cleared = map (\<lambda>g. []) groups;
          (gs1, ms1) = (if length maleStudents \<ge> groupCount
                        then giveOneEach maleStudents cleared else (cleared, maleStudents))
      in case maleLoop groupCount ms1 0 gs1 of
           None \<Rightarrow> None
         | Some gs2 \<Rightarrow>
            (case femaleLoop baseSize extra femaleStudents 0 gs2 of
               None \<Rightarrow> None
             | Some (gs3, fs3) \<Rightarrow>
                 (let gs4 = map (sortBy byId) gs3
                  in if fs3 \<noteq> [] then Some (fillGroups baseSize extra 0 gs4 [] fs3)
                     else Some gs4)))"

subsection \<open>Properties of the equalizer\<close>


lemma mset_insortBy: "mset (insortBy cmp x ys) = add_mset x (mset ys)"
  by (induction ys) auto

lemma mset_sortBy: "mset (sortBy cmp xs) = mset xs"
  by (induction xs) (auto simp: sortBy_def mset_insortBy)

lemma length_sortBy: "length (sortBy cmp xs) = length xs"
  using mset_sortBy[of cmp xs] by (metis size_mset)

lemma set_sortBy: "set (sortBy cmp xs) = set xs"
  using mset_sortBy[of cmp xs] by (metis set_mset_mset)

lemma mset_concat_update:
  "i < length gs \<Longrightarrow> mset (concat (gs[i := gs ! i @ [x]])) = add_mset x (mset (concat gs))"
  by (induction gs arbitrary: i) (auto split: nat.splits)

definition quota :: "nat \<Rightarrow> nat \<Rightarrow> nat \<Rightarrow> nat" where
  "quota n k i = targetSize (k div n) (k mod n) i"

lemma quota_Suc:
  assumes "0 < n" "i < n"
  shows "quota n (Suc k) i = quota n k i + (if i = k mod n then 1 else 0)"
proof (cases "Suc (k mod n) = n")
  case True
  then have "Suc k mod n = 0" "Suc k div n = Suc (k div n)"
    by (simp_all add: mod_Suc div_Suc)
  with True assms show ?thesis by (auto simp: quota_def targetSize_def)
next
  case False
  then have "Suc k mod n = Suc (k mod n)" "Suc k div n = k div n"
    by (simp_all add: mod_Suc div_Suc)
  with False assms show ?thesis by (auto simp: quota_def targetSize_def)
qed

lemma quota_0: "quota n 0 i = 0"
  by (simp add: quota_def targetSize_def)

lemma quota_mono: "0 < n \<Longrightarrow> i < n \<Longrightarrow> quota n k i \<le> quota n (k + d) i"
  by (induction d) (auto simp: quota_Suc)

lemma quota_add_n: "0 < n \<Longrightarrow> quota n (k + n) i = Suc (quota n k i)"
  by (simp add: quota_def targetSize_def div_add_self2)

lemma sum_quota: "0 < n \<Longrightarrow> (\<Sum>i<n. quota n k i) = k"
proof (induction k)
  case 0
  then show ?case by (simp add: quota_0)
next
  case (Suc k)
  have "(\<Sum>i<n. quota n (Suc k) i) = (\<Sum>i<n. quota n k i + (if i = k mod n then 1 else 0))"
    using Suc.prems by (intro sum.cong) (auto simp: quota_Suc)
  also have "\<dots> = (\<Sum>i<n. quota n k i) + (\<Sum>i<n. if i = k mod n then 1 else 0)"
    by (simp add: sum.distrib)
  also have "(\<Sum>i<n. if i = k mod n then 1 else 0) = (1::nat)"
    using Suc.prems by (simp add: sum.delta')
  finally show ?case using Suc by simp
qed

lemma giveOneEach_enough:
  "length gs \<le> length ms \<Longrightarrow>
   giveOneEach ms gs = (map (\<lambda>(g, m). g @ [m]) (zip gs ms), drop (length gs) ms)"
  by (induction ms gs rule: giveOneEach.induct) auto

lemma maleLoop_spec:
  assumes "0 < n" "length gs = n"
  shows "\<exists>gs'. maleLoop n ms (k mod n) gs = Some gs' \<and> length gs' = n
     \<and> (\<forall>i<n. length (gs' ! i) + quota n k i = length (gs ! i) + quota n (k + length ms) i)
     \<and> mset (concat gs') = mset (concat gs) + mset ms"
  using assms
proof (induction ms arbitrary: k gs)
  case Nil
  then show ?case by simp
next
  case (Cons m ms)
  let ?c = "k mod n"
  let ?gs1 = "gs[?c := gs ! ?c @ [m]]"
  have c: "?c < length gs" using Cons.prems by simp
  have push: "pushTo ?c m gs = Some ?gs1" using c by (simp add: pushTo_def)
  have nxt: "(?c + 1) mod n = Suc k mod n" by (simp add: mod_Suc_eq)
  from Cons.IH[of ?gs1 "Suc k"] Cons.prems
  obtain gs' where gs': "maleLoop n ms (Suc k mod n) ?gs1 = Some gs'" "length gs' = n"
    "\<forall>i<n. length (gs' ! i) + quota n (Suc k) i = length (?gs1 ! i) + quota n (Suc k + length ms) i"
    "mset (concat gs') = mset (concat ?gs1) + mset ms"
    by auto
  have "\<forall>i<n. length (gs' ! i) + quota n k i = length (gs ! i) + quota n (k + length (m # ms)) i"
  proof (intro allI impI)
    fix i assume i: "i < n"
    with gs'(3) have "length (gs' ! i) + quota n (Suc k) i
        = length (?gs1 ! i) + quota n (Suc k + length ms) i" by simp
    moreover have "length (?gs1 ! i) = length (gs ! i) + (if i = ?c then 1 else 0)"
      using i Cons.prems by (simp add: nth_list_update)
    moreover have "quota n (Suc k) i = quota n k i + (if i = ?c then 1 else 0)"
      using i Cons.prems by (simp add: quota_Suc)
    ultimately show "length (gs' ! i) + quota n k i = length (gs ! i) + quota n (k + length (m # ms)) i"
      by simp
  qed
  moreover have "mset (concat gs') = mset (concat gs) + mset (m # ms)"
    using gs'(4) c by (simp add: mset_concat_update)
  ultimately show ?case using push nxt gs'(1,2) by simp
qed

definition fits :: "nat \<Rightarrow> nat \<Rightarrow> groups \<Rightarrow> bool" where
  "fits b e gs \<longleftrightarrow> (\<forall>i<length gs. length (gs ! i) \<le> targetSize b e i)"

lemma fits_push:
  "fits b e gs \<Longrightarrow> cur < length gs \<Longrightarrow> groupOpen b e gs cur \<Longrightarrow>
   fits b e (gs[cur := gs ! cur @ [f]])"
  by (auto simp: fits_def groupOpen_def nth_list_update)


lemma femaleLoop_spec:
  "cur < length gs \<Longrightarrow> fits b e gs \<Longrightarrow>
   \<exists>gs' fs'. femaleLoop b e fs cur gs = Some (gs', fs') \<and> length gs' = length gs
     \<and> fits b e gs' \<and> mset (concat gs') + mset fs' = mset (concat gs) + mset fs
     \<and> (fs' = [] \<or> allGroupsFull b e gs')"
proof (induction b e fs cur gs rule: femaleLoop.induct)
  case (1 b e fs cur gs)
  show ?case
  proof (cases fs)
    case Nil
    with 1 show ?thesis by (simp add: femaleLoop.simps)
  next
    case (Cons f rest)
    define placed where "placed = groupOpen b e gs cur"
    define gs1 where "gs1 = (if placed then gs[cur := gs ! cur @ [f]] else gs)"
    define fs1 where "fs1 = (if placed then rest else fs)"
    define cur1 where "cur1 = (cur + 1) mod length gs"
    have len1: "length gs1 = length gs" by (simp add: gs1_def)
    have fit1: "fits b e gs1"
      using 1(2,3) by (auto simp: gs1_def placed_def intro: fits_push)
    have ms1: "mset (concat gs1) + mset fs1 = mset (concat gs) + mset fs"
      using 1(2) Cons by (auto simp: gs1_def fs1_def mset_concat_update)
    have "0 < length gs" using 1(2) by (cases gs) simp_all
    then have cur1: "cur1 < length gs1" unfolding cur1_def len1 by (rule mod_less_divisor)
    have unf: "femaleLoop b e fs cur gs =
       (if allGroupsFull b e gs1 then Some (gs1, fs1) else femaleLoop b e fs1 cur1 gs1)"
      using Cons 1(2)
      by (subst femaleLoop.simps) (simp add: Let_def placed_def gs1_def fs1_def cur1_def)
    show ?thesis
    proof (cases "allGroupsFull b e gs1")
      case True
      with unf len1 fit1 ms1 show ?thesis by simp
    next
      case False
      from "1.IH"[OF Cons 1(2) placed_def gs1_def fs1_def cur1_def False cur1 fit1]
      obtain gs' fs' where "femaleLoop b e fs1 cur1 gs1 = Some (gs', fs')"
        "length gs' = length gs1" "fits b e gs'"
        "mset (concat gs') + mset fs' = mset (concat gs1) + mset fs1"
        "fs' = [] \<or> allGroupsFull b e gs'" by blast
      with unf False len1 ms1 show ?thesis by simp
    qed
  qed
qed

lemma length_concat_sum: "length (concat gs) = (\<Sum>i<length gs. length (gs ! i))"
  by (simp add: length_concat sum_list_sum_nth atLeast0LessThan)

lemma fits_sum_eq:
  assumes "fits b e gs" "length (concat gs) = (\<Sum>i<length gs. targetSize b e i)"
  shows "\<forall>i<length gs. length (gs ! i) = targetSize b e i"
proof (rule ccontr)
  assume "\<not> ?thesis"
  then obtain j where j: "j < length gs" "length (gs ! j) \<noteq> targetSize b e j" by blast
  with assms(1) have "length (gs ! j) < targetSize b e j" by (auto simp: fits_def le_less)
  with j assms(1) have "(\<Sum>i<length gs. length (gs ! i)) < (\<Sum>i<length gs. targetSize b e i)"
    by (intro sum_strict_mono_ex1) (auto simp: fits_def)
  with assms(2) show False by (simp add: length_concat_sum)
qed

lemma mset_concat_map_sortBy: "mset (concat (map (sortBy cmp) gs)) = mset (concat gs)"
  by (induction gs) (auto simp: mset_sortBy)

lemma gender_split:
  "mset (filter (\<lambda>s. gender s = Male) xs) + mset (filter (\<lambda>s. gender s = Female) xs) = mset xs"
  by (induction xs) (auto intro: gender.exhaust)

lemma allFull_fits:
  assumes "allGroupsFull b e gs" "fits b e gs"
  shows "length (concat gs) = (\<Sum>i<length gs. targetSize b e i)"
proof -
  have "\<forall>i<length gs. length (gs ! i) = targetSize b e i"
    using assms by (auto simp: allGroupsFull_def fits_def groupOpen_def le_antisym not_less)
  then show ?thesis by (simp add: length_concat_sum)
qed

lemma males_dealt:
  assumes n: "0 < n" "length cleared = n" "\<forall>g \<in> set cleared. g = []"
  shows "\<exists>gs2. (case (if length ms \<ge> n then giveOneEach ms cleared else (cleared, ms)) of
            (gs1, ms1) \<Rightarrow> maleLoop n ms1 0 gs1) = Some gs2
      \<and> length gs2 = n \<and> (\<forall>i<n. length (gs2 ! i) = quota n (length ms) i)
      \<and> mset (concat gs2) = mset ms"
proof (cases "length ms \<ge> n")
  case True
  let ?gs1 = "map (\<lambda>(g, m). g @ [m]) (zip cleared ms)"
  have g1: "giveOneEach ms cleared = (?gs1, drop n ms)"
    using True n by (simp add: giveOneEach_enough)
  have len1: "length ?gs1 = n" using True n by simp
  have nth1: "\<forall>i<n. ?gs1 ! i = [ms ! i]" using True n by (auto simp: all_set_conv_all_nth)
  have "concat ?gs1 = take n ms"
  proof -
    have "?gs1 = map (\<lambda>m. [m]) (take n ms)"
      using nth1 len1 True by (intro nth_equalityI) auto
    then show ?thesis by (simp add: concat_map_singleton)
  qed
  then have ms1: "mset (concat ?gs1) + mset (drop n ms) = mset ms"
    by (metis append_take_drop_id mset_append)
  from maleLoop_spec[OF n(1) len1, of "drop n ms" 0]
  obtain gs2 where gs2: "maleLoop n (drop n ms) 0 ?gs1 = Some gs2" "length gs2 = n"
    "\<forall>i<n. length (gs2 ! i) + quota n 0 i = length (?gs1 ! i) + quota n (0 + length (drop n ms)) i"
    "mset (concat gs2) = mset (concat ?gs1) + mset (drop n ms)"
    using n by auto
  have "\<forall>i<n. length (gs2 ! i) = quota n (length ms) i"
  proof (intro allI impI)
    fix i assume i: "i < n"
    have "quota n (length ms) i = quota n ((length ms - n) + n) i" using True by simp
    also have "\<dots> = Suc (quota n (length ms - n) i)" using n(1) by (rule quota_add_n)
    finally show "length (gs2 ! i) = quota n (length ms) i"
      using gs2(3) nth1 i by (simp add: quota_0)
  qed
  with gs2 ms1 g1 True show ?thesis by simp
next
  case False
  from maleLoop_spec[OF n(1,2), of ms 0]
  obtain gs2 where gs2: "maleLoop n ms 0 cleared = Some gs2" "length gs2 = n"
    "\<forall>i<n. length (gs2 ! i) + quota n 0 i = length (cleared ! i) + quota n (0 + length ms) i"
    "mset (concat gs2) = mset (concat cleared) + mset ms"
    using n by auto
  have "concat cleared = []" using n(3) by simp
  moreover have "\<forall>i<n. cleared ! i = []" using n(2,3) by simp
  ultimately show ?thesis using gs2 False by (simp add: quota_0)
qed

lemma sum_targetSize: "0 < n \<Longrightarrow> (\<Sum>i<n. targetSize (t div n) (t mod n) i) = t"
  using sum_quota[of n t] by (simp add: quota_def)

lemma equalizer_spec:
  fixes groups :: groups and allStudents :: "student list"
  assumes n: "0 < length groups" and rs: "fair rs"
  defines "t \<equiv> length (studentsToDistribute groups allStudents)"
  shows "\<exists>out. forceEqualDistribution rs groups allStudents = Some out
     \<and> length out = length groups
     \<and> (\<forall>i<length groups. length (out ! i)
            = targetSize (t div length groups) (t mod length groups) i)
     \<and> mset (concat out) = mset (studentsToDistribute groups allStudents)"
proof -
  let ?n = "length groups"
  let ?td = "studentsToDistribute groups allStudents"
  let ?ms = "shuf rs EqualMales (filter (\<lambda>s. gender s = Male) ?td)"
  let ?fs = "shuf rs EqualFemales (filter (\<lambda>s. gender s = Female) ?td)"
  let ?b = "t div ?n" and ?e = "t mod ?n"
  let ?cleared = "map (\<lambda>g. []) groups :: groups"
  have msf: "mset ?ms + mset ?fs = mset ?td"
    using rs gender_split[of ?td] by (simp add: fair_def)
  then have tlen: "length ?ms + length ?fs = t"
    unfolding t_def by (metis size_mset size_union)
  obtain gs1 ms1 where X: "(if length ?ms \<ge> ?n then giveOneEach ?ms ?cleared else (?cleared, ?ms))
      = (gs1, ms1)" by (cases "(if length ?ms \<ge> ?n then giveOneEach ?ms ?cleared else (?cleared, ?ms))")
  from males_dealt[OF n, of ?cleared ?ms] X
  obtain gs2 where gs2: "maleLoop ?n ms1 0 gs1 = Some gs2" "length gs2 = ?n"
    "\<forall>i<?n. length (gs2 ! i) = quota ?n (length ?ms) i" "mset (concat gs2) = mset ?ms"
    by auto
  have fit2: "fits ?b ?e gs2"
    unfolding fits_def
  proof (intro allI impI)
    fix i assume "i < length gs2"
    then have i: "i < ?n" using gs2(2) by simp
    have "quota ?n (length ?ms) i \<le> quota ?n (length ?ms + length ?fs) i"
      using n i by (rule quota_mono)
    then show "length (gs2 ! i) \<le> targetSize ?b ?e i"
      using gs2(3) i tlen by (simp add: quota_def)
  qed
  from femaleLoop_spec[of 0 gs2 ?b ?e ?fs] fit2 gs2(2) n
  obtain gs3 fs3 where f3: "femaleLoop ?b ?e ?fs 0 gs2 = Some (gs3, fs3)" "length gs3 = ?n"
    "fits ?b ?e gs3" "mset (concat gs3) + mset fs3 = mset (concat gs2) + mset ?fs"
    "fs3 = [] \<or> allGroupsFull ?b ?e gs3" by auto
  have total: "length (concat gs3) + length fs3 = t"
    using f3(4) gs2(4) tlen by (metis size_mset size_union)
  have st: "(\<Sum>i<length gs3. targetSize ?b ?e i) = t"
    using n f3(2) by (simp add: sum_targetSize)
  have fs3: "fs3 = []"
  proof (rule ccontr)
    assume ne: "fs3 \<noteq> []"
    with f3(5) have "allGroupsFull ?b ?e gs3" by simp
    from allFull_fits[OF this f3(3)] st total ne show False by simp
  qed
  with total st have "length (concat gs3) = (\<Sum>i<length gs3. targetSize ?b ?e i)" by simp
  from fits_sum_eq[OF f3(3) this] f3(2)
  have sz3: "\<forall>i<?n. length (gs3 ! i) = targetSize ?b ?e i" by simp
  let ?out = "map (sortBy byId) gs3"
  have res: "forceEqualDistribution rs groups allStudents = Some ?out"
    unfolding forceEqualDistribution_def Let_def t_def[symmetric]
    using X gs2(1) f3(1) fs3 by simp
  moreover have "length ?out = ?n" using f3(2) by simp
  moreover have "\<forall>i<?n. length (?out ! i) = targetSize ?b ?e i"
    using sz3 f3(2) by (simp add: length_sortBy)
  moreover have "mset (concat ?out) = mset ?td"
    using f3(4) fs3 gs2(4) msf by (simp add: mset_concat_map_sortBy)
  ultimately show ?thesis by blast
qed

section \<open>Parsing the inputs\<close>

text \<open>
  JavaScript strings are modelled as lists of 8-bit characters. \<open>isSpace\<close> holds of the
  white space and line terminator code points below 256: these are what \<open>trim\<close>, the
  regular expression class \<open>\s\<close> and the prefix skipped by \<open>parseInt\<close> remove.
\<close>

definition isSpace :: "char \<Rightarrow> bool" where
  "isSpace c \<longleftrightarrow> (of_char c :: nat) \<in> {9, 10, 11, 12, 13, 32, 160}"

definition trim :: "string \<Rightarrow> string" where
  "trim s = rev (dropWhile isSpace (rev (dropWhile isSpace s)))"

text \<open>\<open>s.split(c)\<close> for a one-character separator: \<open>"".split(",")\<close> is \<open>[""]\<close>.\<close>

fun splitChar :: "char \<Rightarrow> string \<Rightarrow> string list" where
  "splitChar c [] = [[]]"
| "splitChar c (x # xs) =
     (if x = c then [] # splitChar c xs
      else (case splitChar c xs of [] \<Rightarrow> [[x]] | w # ws \<Rightarrow> (x # w) # ws))"

text \<open>
  \<open>s.split(/[,\s]+/)\<close>: the pieces between the maximal runs of separator characters.
  \<open>sepRun\<close> tells whether the previous character was a separator.
\<close>

fun splitRuns :: "(char \<Rightarrow> bool) \<Rightarrow> bool \<Rightarrow> string \<Rightarrow> string list" where
  "splitRuns isSep sepRun [] = [[]]"
| "splitRuns isSep sepRun (x # xs) =
     (if isSep x then (if sepRun then splitRuns isSep True xs else [] # splitRuns isSep True xs)
      else (case splitRuns isSep False xs of [] \<Rightarrow> [[x]] | w # ws \<Rightarrow> (x # w) # ws))"

definition isBlockSep :: "char \<Rightarrow> bool" where
  "isBlockSep c \<longleftrightarrow> c = CHR '','' \<or> isSpace c"

text \<open>
  \<open>parseInt(s)\<close> without a radix: leading white space is skipped, a sign is read, a
  \<open>0x\<close> prefix selects base 16, and the longest prefix of digits is the value; \<open>NaN\<close>
  (\<open>None\<close>) when there is no digit.
\<close>

definition digitOf :: "char \<Rightarrow> nat" where
  "digitOf c =
     (let k = (of_char c :: nat) in
      if 48 \<le> k \<and> k \<le> 57 then k - 48
      else if 97 \<le> k \<and> k \<le> 122 then k - 87
      else if 65 \<le> k \<and> k \<le> 90 then k - 55
      else 36)"

definition parseInt :: "string \<Rightarrow> int option" where
  "parseInt s =
     (let s1 = dropWhile isSpace s;
          (sign, s2) = (case s1 of
                          c # r \<Rightarrow> if c = CHR ''-'' then (- 1 :: int, r)
                                   else if c = CHR ''+'' then (1, r) else (1, s1)
                        | [] \<Rightarrow> (1, s1));
          (radix, s3) = (case s2 of
                           a # b # r \<Rightarrow> if a = CHR ''0'' \<and> (b = CHR ''x'' \<or> b = CHR ''X'')
                                        then (16 :: nat, r) else (10, s2)
                         | _ \<Rightarrow> (10, s2));
          ds = takeWhile (\<lambda>c. digitOf c < radix) s3
      in if ds = [] then None
         else Some (sign * int (foldl (\<lambda>a c. a * radix + digitOf c) 0 ds)))"

text \<open>\<open>[...new Set(numbers)]\<close>: the first occurrence of each value, in order.\<close>

fun uniq :: "int list \<Rightarrow> int list \<Rightarrow> int list" where
  "uniq seen [] = []"
| "uniq seen (x # xs) = (if x \<in> set seen then uniq seen xs else x # uniq (x # seen) xs)"

definition byValue :: "int \<Rightarrow> int \<Rightarrow> int" where
  "byValue a b = a - b"

text \<open>
  One comma-separated part of a number list, as both \<open>parseNumberInput\<close> and
  \<open>parseBlockInput\<close> read it: a part with a \<open>-\<close> is a range between the first two
  pieces around it, whatever their order; it yields nothing when one of them is not a
  number.
\<close>

definition parsePart :: "string \<Rightarrow> int list" where
  "parsePart part =
     (if CHR ''-'' \<in> set part then
        (case map (\<lambda>n. parseInt (trim n)) (splitChar (CHR ''-'') part) of
           Some start # Some end # _ \<Rightarrow> [min start end .. max start end]
         | _ \<Rightarrow> [])
      else (case parseInt part of Some num \<Rightarrow> [num] | None \<Rightarrow> []))"

definition parseNumberInput :: "string \<Rightarrow> int list" where
  "parseNumberInput input =
     (let parts = map trim (splitChar (CHR '','') input);
          numbers = concat (map parsePart parts)
      in sortBy byValue (uniq [] numbers))"

definition parseBlockInput :: "string \<Rightarrow> int list" where
  "parseBlockInput input =
     (if trim input = [] then []
      else
        (let lines = filter (\<lambda>line. line \<noteq> []) (map trim (splitChar (CHR 0x0A) input));
             numbers = concat (map (\<lambda>line.
               (let parts = filter (\<lambda>part. part \<noteq> []) (map trim (splitRuns isBlockSep False line))
                in concat (map parsePart parts))) lines)
         in sortBy byValue (uniq [] numbers)))"

text \<open>
  \<open>parseStudentNumbers\<close> of SameGroupHandler and DifferentGroupHandler (the two copies
  are the same code): it throws when a number occurs twice in the input.
\<close>

datatype parseError = DuplicateIds "int list"

fun scanNumbers :: "string list \<Rightarrow> int list \<Rightarrow> int list \<Rightarrow> int list \<times> int list" where
  "scanNumbers [] numbers duplicates = (numbers, duplicates)"
| "scanNumbers (part # parts) numbers duplicates =
     (case parseInt part of
        None \<Rightarrow> scanNumbers parts numbers duplicates
      | Some num \<Rightarrow>
          if num \<in> set numbers
          then scanNumbers parts numbers (if num \<in> set duplicates then duplicates else duplicates @ [num])
          else scanNumbers parts (numbers @ [num]) duplicates)"

definition parseStudentNumbers :: "string \<Rightarrow> parseError + int list" where
  "parseStudentNumbers input =
     (let parts = map trim (splitChar (CHR '','') input);
          (numbers, duplicates) = scanNumbers parts [] []
      in if duplicates \<noteq> [] then Inl (DuplicateIds (sortBy byValue duplicates))
         else Inr (sortBy byValue numbers))"

definition parseGroupList :: "string \<Rightarrow> int list list" where
  "parseGroupList input =
     (if trim input = [] then []
      else
        (let groups = filter (\<lambda>group. group \<noteq> []) (map trim (splitChar (CHR '';'') input))
         in concat (map (\<lambda>group.
              (case parseStudentNumbers group of
                 Inr studentNumbers \<Rightarrow> if length studentNumbers \<ge> 2 then [studentNumbers] else []
               | Inl error \<Rightarrow> [])) groups)))"

definition parseSameGroupInput :: "string \<Rightarrow> int list list" where
  "parseSameGroupInput input = parseGroupList input"

definition parseDifferentGroupInput :: "string \<Rightarrow> int list list" where
  "parseDifferentGroupInput input = parseGroupList input"

section \<open>The handler chain (src/app/models/grouping-handler.model.ts and the handlers)\<close>

text \<open>
  A slot of a \<open>blockInputs\<close> array is a string, \<open>undefined\<close>, or a hole of a sparse
  array. A condition is a \<open>GroupingConditionState\<close>; \<open>performGrouping\<close> hands its
  \<open>input\<close> and \<open>blockInputs\<close> on to the handlers inside \<open>config\<close>. The \<open>message\<close> of
  a \<open>GroupingResult\<close> is text for the log and is left out.
\<close>

datatype slot = Str string | Undef | Hole

record condition =
  cid :: string
  ctype :: string
  enabled :: bool
  input :: string
  blockInputs :: "slot list option"

record groupingContext =
  ctxStudents :: "student list"
  ctxGroups :: groups
  ctxConditions :: "condition list"
  ctxRemaining :: "student list"

record groupingResult =
  success :: bool
  handled :: bool
  resGroups :: groups
  resRemaining :: "student list"

definition findCondition :: "string \<Rightarrow> condition list \<Rightarrow> condition option" where
  "findCondition t conditions = find (\<lambda>c. ctype c = t \<and> enabled c) conditions"

definition findStudent :: "int \<Rightarrow> student list \<Rightarrow> student option" where
  "findStudent studentId students = find (\<lambda>s. sid s = studentId) students"

text \<open>
  \<open>idxs.reduce((min, cur) => cur.students.length < min.students.length ? cur : min)\<close>
  over the groups with the given indices: the first of the smallest ones. Reducing an
  empty array throws.
\<close>

definition reduceMin :: "groups \<Rightarrow> nat list \<Rightarrow> nat option" where
  "reduceMin gs idxs =
     (case idxs of
        [] \<Rightarrow> None
      | i # rest \<Rightarrow> Some (foldl (\<lambda>m c. if length (gs ! c) < length (gs ! m) then c else m) i rest))"

definition bySize :: "groups \<Rightarrow> nat \<Rightarrow> nat \<Rightarrow> int" where
  "bySize gs a b = int (length (gs ! a)) - int (length (gs ! b))"

fun placeAtMin :: "student list \<Rightarrow> groups \<Rightarrow> groups option" where
  "placeAtMin [] gs = Some gs"
| "placeAtMin (student # rest) gs =
     (case reduceMin gs [0..<length gs] of
        None \<Rightarrow> None
      | Some target \<Rightarrow>
          (case pushTo target student gs of None \<Rightarrow> None | Some gs' \<Rightarrow> placeAtMin rest gs'))"

definition distributeRemainingStudents ::
  "randsrc \<Rightarrow> site \<Rightarrow> groups \<Rightarrow> student list \<Rightarrow> groups option" where
  "distributeRemainingStudents rs site gs remainingStudents =
     placeAtMin (shuf rs site remainingStudents) gs"

text \<open>
  The end of \<open>process\<close> in BlockDistributionHandler, SameGroupHandler and
  DifferentGroupHandler (the same code in each): the students that are left go to the
  next handler; when it has not handled them, they are spread over the smallest groups.
\<close>

definition passOn ::
  "(groupingContext \<Rightarrow> groupingResult option) \<Rightarrow> randsrc \<Rightarrow> site \<Rightarrow> groupingContext
     \<Rightarrow> groups \<Rightarrow> student list \<Rightarrow> groupingResult option" where
  "passOn nextHandle rs site ctx gs finalRemainingStudents =
     (if finalRemainingStudents \<noteq> [] then
        (case nextHandle (ctx\<lparr>ctxGroups := gs, ctxRemaining := finalRemainingStudents\<rparr>) of
           None \<Rightarrow> None
         | Some nextResult \<Rightarrow>
             if handled nextResult
             then Some \<lparr>success = True, handled = True, resGroups = resGroups nextResult,
                        resRemaining = resRemaining nextResult\<rparr>
             else (case distributeRemainingStudents rs site gs finalRemainingStudents of
                     None \<Rightarrow> None
                   | Some gs' \<Rightarrow> Some \<lparr>success = True, handled = True, resGroups = gs',
                                        resRemaining = []\<rparr>))
      else Some \<lparr>success = True, handled = True, resGroups = gs, resRemaining = []\<rparr>)"

definition declined :: "bool \<Rightarrow> groupingContext \<Rightarrow> groupingResult" where
  "declined ok ctx =
     \<lparr>success = ok, handled = False, resGroups = ctxGroups ctx, resRemaining = ctxRemaining ctx\<rparr>"

text \<open>\<open>GroupingHandler.handle\<close>: a result without success goes to the next handler.\<close>

definition handleWith ::
  "(groupingContext \<Rightarrow> groupingResult option) \<Rightarrow> (groupingContext \<Rightarrow> groupingResult option)
     \<Rightarrow> groupingContext \<Rightarrow> groupingResult option" where
  "handleWith process nextHandle ctx =
     (case process ctx of
        None \<Rightarrow> None
      | Some result \<Rightarrow> if \<not> success result then nextHandle ctx else Some result)"

subsection \<open>GenderRatioHandler\<close>

record genderStat =
  index :: nat
  males :: int
  females :: int
  total :: int
  genderDiff :: int

fun fisherYates :: "(nat \<Rightarrow> nat) \<Rightarrow> nat \<Rightarrow> 'a list \<Rightarrow> 'a list" where
  "fisherYates d 0 xs = xs"
| "fisherYates d (Suc i) xs =
     (let j = d (Suc i) in fisherYates d i (xs[Suc i := xs ! j, j := xs ! Suc i]))"

definition shuffleArray :: "(nat \<Rightarrow> nat) \<Rightarrow> 'a list \<Rightarrow> 'a list" where
  "shuffleArray d xs = fisherYates d (length xs - 1) xs"

definition overCapacity :: "int \<Rightarrow> genderStat \<Rightarrow> int" where
  "overCapacity idealGroupSize a = max 0 (total a + 1 - idealGroupSize)"

definition cmpForMale :: "int \<Rightarrow> genderStat \<Rightarrow> genderStat \<Rightarrow> int" where
  "cmpForMale idealGroupSize a b =
     (if overCapacity idealGroupSize a \<noteq> overCapacity idealGroupSize b
      then overCapacity idealGroupSize a - overCapacity idealGroupSize b
      else if females a - males a \<noteq> females b - males b
      then (females b - males b) - (females a - males a)
      else total a - total b)"

definition cmpForFemale :: "int \<Rightarrow> genderStat \<Rightarrow> genderStat \<Rightarrow> int" where
  "cmpForFemale idealGroupSize a b =
     (if overCapacity idealGroupSize a \<noteq> overCapacity idealGroupSize b
      then overCapacity idealGroupSize a - overCapacity idealGroupSize b
      else if males a - females a \<noteq> males b - females b
      then (males b - females b) - (males a - females a)
      else total a - total b)"

fun placeMales ::
  "int \<Rightarrow> student list \<Rightarrow> genderStat list \<Rightarrow> groups \<Rightarrow> (genderStat list \<times> groups) option" where
  "placeMales ideal [] stats gs = Some (stats, gs)"
| "placeMales ideal (maleStudent # rest) stats gs =
     (case sortBy (cmpForMale ideal) stats of
        [] \<Rightarrow> None
      | t # others \<Rightarrow>
          (case pushTo (index t) maleStudent gs of
             None \<Rightarrow> None
           | Some gs' \<Rightarrow>
               placeMales ideal rest
                 (t\<lparr>males := males t + 1, total := total t + 1,
                    genderDiff := \<bar>males t + 1 - females t\<bar>\<rparr> # others) gs'))"

fun placeFemales ::
  "int \<Rightarrow> student list \<Rightarrow> genderStat list \<Rightarrow> groups \<Rightarrow> (genderStat list \<times> groups) option" where
  "placeFemales ideal [] stats gs = Some (stats, gs)"
| "placeFemales ideal (femaleStudent # rest) stats gs =
     (case sortBy (cmpForFemale ideal) stats of
        [] \<Rightarrow> None
      | t # others \<Rightarrow>
          (case pushTo (index t) femaleStudent gs of
             None \<Rightarrow> None
           | Some gs' \<Rightarrow>
               placeFemales ideal rest
                 (t\<lparr>females := females t + 1, total := total t + 1,
                    genderDiff := \<bar>males t - (females t + 1)\<bar>\<rparr> # others) gs'))"

definition groupGenderStats :: "groups \<Rightarrow> genderStat list" where
  "groupGenderStats gs =
     map (\<lambda>i. let m = int (length (filter (\<lambda>s. gender s = Male) (gs ! i)));
                   f = int (length (filter (\<lambda>s. gender s = Female) (gs ! i)))
               in \<lparr>index = i, males = m, females = f, total = m + f, genderDiff = \<bar>m - f\<bar>\<rparr>)
       [0..<length gs]"

text \<open>
  \<open>Math.ceil(totalStudents / totalGroups)\<close>; with no group it is \<open>Infinity\<close> or
  \<open>NaN\<close>, and is then never compared, since there is no group statistic to sort.
\<close>

definition idealGroupSize :: "nat \<Rightarrow> nat \<Rightarrow> int" where
  "idealGroupSize totalStudents totalGroups = int ((totalStudents + totalGroups - 1) div totalGroups)"

definition genderProcess :: "randsrc \<Rightarrow> groupingContext \<Rightarrow> groupingResult option" where
  "genderProcess rs ctx =
     (case findCondition ''gender-ratio'' (ctxConditions ctx) of
        None \<Rightarrow> Some (declined False ctx)
      | Some genderRatioCondition \<Rightarrow>
          (let studentsToProcess = ctxRemaining ctx;
               gs = ctxGroups ctx;
               maleStudents = filter (\<lambda>s. gender s = Male) studentsToProcess;
               femaleStudents = filter (\<lambda>s. gender s = Female) studentsToProcess
           in if maleStudents = [] \<and> femaleStudents = []
              then Some \<lparr>success = True, handled = False, resGroups = gs, resRemaining = []\<rparr>
              else
                (let shuffledMales = shuffleArray (draw rs GenderMales) maleStudents;
                     shuffledFemales = shuffleArray (draw rs GenderFemales) femaleStudents;
                     totalStudents = length maleStudents + length femaleStudents + length (concat gs);
                     ideal = idealGroupSize totalStudents (length gs)
                 in case placeMales ideal shuffledMales (groupGenderStats gs) gs of
                      None \<Rightarrow> None
                    | Some (stats1, gs1) \<Rightarrow>
                        (case placeFemales ideal shuffledFemales stats1 gs1 of
                           None \<Rightarrow> None
                         | Some (stats2, gs2) \<Rightarrow>
                             Some \<lparr>success = True, handled = True, resGroups = gs2,
                                    resRemaining = []\<rparr>))))"

definition genderHandle :: "randsrc \<Rightarrow> groupingContext \<Rightarrow> groupingResult option" where
  "genderHandle rs ctx = genderProcess rs ctx"

subsection \<open>DifferentGroupHandler\<close>

text \<open>
  \<open>studentGroupMap\<close> is a JavaScript \<open>Map\<close>: an association list in insertion order,
  where setting a key that is present replaces its value in place.
\<close>

definition studentGroupMap :: "groups \<Rightarrow> int list \<Rightarrow> (int \<times> nat) list" where
  "studentGroupMap gs studentIds =
     foldl (\<lambda>m (g, groupIndex).
              foldl (\<lambda>m student. if sid student \<in> set studentIds
                                  then AList.update (sid student) groupIndex m else m) m g)
       [] (zip gs [0..<length gs])"

fun uniqNat :: "nat list \<Rightarrow> nat list \<Rightarrow> nat list" where
  "uniqNat seen [] = []"
| "uniqNat seen (x # xs) = (if x \<in> set seen then uniqNat seen xs else x # uniqNat (x # seen) xs)"

text \<open>Taking the members of the cluster but the first out of the group they share.\<close>

fun evict :: "nat \<Rightarrow> int list \<Rightarrow> groups \<Rightarrow> student list \<Rightarrow> groups \<times> student list" where
  "evict conflictGroupIndex [] gs remainingStudents = (gs, remainingStudents)"
| "evict conflictGroupIndex (studentId # rest) gs remainingStudents =
     (case findStudent studentId (gs ! conflictGroupIndex) of
        None \<Rightarrow> evict conflictGroupIndex rest gs remainingStudents
      | Some studentObj \<Rightarrow>
          evict conflictGroupIndex rest
            (gs[conflictGroupIndex := filter (\<lambda>s. sid s \<noteq> studentId) (gs ! conflictGroupIndex)])
            (remainingStudents @ [studentObj]))"

fun redistributeStudents :: "groups \<Rightarrow> int list \<Rightarrow> student list \<Rightarrow> nat \<Rightarrow> groups" where
  "redistributeStudents gs [] remainingStudents avoidGroupIndex = gs"
| "redistributeStudents gs (studentId # rest) remainingStudents avoidGroupIndex =
     (case findStudent studentId remainingStudents of
        None \<Rightarrow> redistributeStudents gs rest remainingStudents avoidGroupIndex
      | Some student \<Rightarrow>
          (case sortBy (bySize gs) (filter (\<lambda>i. i \<noteq> avoidGroupIndex) [0..<length gs]) of
             [] \<Rightarrow> redistributeStudents gs rest remainingStudents avoidGroupIndex
           | t # others \<Rightarrow>
               redistributeStudents (gs[t := gs ! t @ [student]]) rest remainingStudents
                 avoidGroupIndex))"

text \<open>
  The last loop of \<open>assignToDifferentGroups\<close>, over the ids of the cluster: a student
  that is in no group yet goes to the smallest group this cluster has not used, or to
  the smallest group of all when every group is used.
\<close>

fun assignUnplaced ::
  "(int \<times> nat) list \<Rightarrow> student list \<Rightarrow> int list \<Rightarrow> nat set \<Rightarrow> groups \<Rightarrow> int set
     \<Rightarrow> (groups \<times> int set) option" where
  "assignUnplaced m remainingStudents [] usedGroups gs processed = Some (gs, processed)"
| "assignUnplaced m remainingStudents (studentId # rest) usedGroups gs processed =
     (if map_of m studentId \<noteq> None
      then assignUnplaced m remainingStudents rest usedGroups gs (insert studentId processed)
      else
        (case findStudent studentId remainingStudents of
           None \<Rightarrow> assignUnplaced m remainingStudents rest usedGroups gs processed
         | Some student \<Rightarrow>
             (case sortBy (bySize gs) (filter (\<lambda>i. i \<notin> usedGroups) [0..<length gs]) of
                t # others \<Rightarrow>
                  assignUnplaced m remainingStudents rest (insert t usedGroups)
                    (gs[t := gs ! t @ [student]]) (insert studentId processed)
              | [] \<Rightarrow>
                  (case reduceMin gs [0..<length gs] of
                     None \<Rightarrow> None
                   | Some t \<Rightarrow>
                       assignUnplaced m remainingStudents rest usedGroups
                         (gs[t := gs ! t @ [student]]) (insert studentId processed)))))"

definition assignToDifferentGroups ::
  "groups \<Rightarrow> int list \<Rightarrow> student list \<Rightarrow> int set
     \<Rightarrow> (groups \<times> student list \<times> int set) option" where
  "assignToDifferentGroups gs studentIds remainingStudents processed =
     (let m = studentGroupMap gs studentIds;
          groupsWithStudents = uniqNat [] (map snd m);
          (gs1, remaining1, processed1) =
            (if length groupsWithStudents > 1
             then (gs, remainingStudents,
                   processed \<union> {studentId \<in> set studentIds. map_of m studentId \<noteq> None})
             else if length groupsWithStudents = 1
             then (let conflictGroupIndex = hd groupsWithStudents;
                       studentsInConflictGroup =
                         filter (\<lambda>i. map_of m i = Some conflictGroupIndex) studentIds;
                       (gsE, remE) = evict conflictGroupIndex (tl studentsInConflictGroup) gs
                                       remainingStudents;
                       gsR = redistributeStudents gsE (tl studentsInConflictGroup) remE
                               conflictGroupIndex
                   in (gsR, remE, processed \<union> set studentIds))
             else (gs, remainingStudents, processed));
          usedGroups = snd ` set m
      in case assignUnplaced m remaining1 studentIds usedGroups gs1 processed1 of
           None \<Rightarrow> None
         | Some (gs2, processed2) \<Rightarrow> Some (gs2, remaining1, processed2))"

fun differentGroupLoop ::
  "int list list \<Rightarrow> groups \<Rightarrow> student list \<Rightarrow> int set
     \<Rightarrow> (groups \<times> student list \<times> int set) option" where
  "differentGroupLoop [] gs remainingStudents processed = Some (gs, remainingStudents, processed)"
| "differentGroupLoop (pair # pairs) gs remainingStudents processed =
     (case assignToDifferentGroups gs pair remainingStudents processed of
        None \<Rightarrow> None
      | Some (gs', remaining', processed') \<Rightarrow> differentGroupLoop pairs gs' remaining' processed')"

definition differentProcess ::
  "(groupingContext \<Rightarrow> groupingResult option) \<Rightarrow> randsrc \<Rightarrow> groupingContext
     \<Rightarrow> groupingResult option" where
  "differentProcess nextHandle rs ctx =
     (case findCondition ''different-group'' (ctxConditions ctx) of
        None \<Rightarrow> Some (declined False ctx)
      | Some differentGroupCondition \<Rightarrow>
          (let differentGroupPairs = parseDifferentGroupInput (input differentGroupCondition)
           in if differentGroupPairs = [] then Some (declined True ctx)
              else
                (case differentGroupLoop differentGroupPairs (ctxGroups ctx) (ctxRemaining ctx) {} of
                   None \<Rightarrow> None
                 | Some (gs, remainingStudents, processed) \<Rightarrow>
                     passOn nextHandle rs DiffRest ctx gs
                       (filter (\<lambda>s. sid s \<notin> processed) remainingStudents))))"

subsection \<open>SameGroupHandler\<close>

definition canFitInGroup :: "student list \<Rightarrow> nat \<Rightarrow> bool" where
  "canFitInGroup g requiredCapacity \<longleftrightarrow> length g + requiredCapacity \<le> 8"

definition findAvailableGroup :: "groups \<Rightarrow> nat \<Rightarrow> nat option" where
  "findAvailableGroup gs requiredCapacity =
     (let availableGroups = filter (\<lambda>i. canFitInGroup (gs ! i) requiredCapacity) [0..<length gs]
      in if availableGroups \<noteq> [] then reduceMin gs availableGroups
         else reduceMin gs [0..<length gs])"

fun addToGroup ::
  "nat \<Rightarrow> int list \<Rightarrow> student list \<Rightarrow> groups \<Rightarrow> int set \<Rightarrow> (groups \<times> int set) option" where
  "addToGroup target [] remainingStudents gs processed = Some (gs, processed)"
| "addToGroup target (studentId # rest) remainingStudents gs processed =
     (case findStudent studentId remainingStudents of
        None \<Rightarrow> addToGroup target rest remainingStudents gs processed
      | Some student \<Rightarrow>
          (case pushTo target student gs of
             None \<Rightarrow> None
           | Some gs' \<Rightarrow>
               addToGroup target rest remainingStudents gs' (insert studentId processed)))"

fun sameGroupLoop ::
  "int list list \<Rightarrow> student list \<Rightarrow> groups \<Rightarrow> int set \<Rightarrow> (groups \<times> int set) option" where
  "sameGroupLoop [] remainingStudents gs processed = Some (gs, processed)"
| "sameGroupLoop (pair # pairs) remainingStudents gs processed =
     (let availableStudents =
            filter (\<lambda>studentId. studentId \<in> sid ` set remainingStudents \<and> studentId \<notin> processed) pair
      in if availableStudents = [] then sameGroupLoop pairs remainingStudents gs processed
         else
           (case findAvailableGroup gs (length availableStudents) of
              None \<Rightarrow> None
            | Some target \<Rightarrow>
                (case addToGroup target availableStudents remainingStudents gs processed of
                   None \<Rightarrow> None
                 | Some (gs', processed') \<Rightarrow> sameGroupLoop pairs remainingStudents gs' processed')))"

definition sameProcess ::
  "(groupingContext \<Rightarrow> groupingResult option) \<Rightarrow> randsrc \<Rightarrow> groupingContext
     \<Rightarrow> groupingResult option" where
  "sameProcess nextHandle rs ctx =
     (case findCondition ''same-group'' (ctxConditions ctx) of
        None \<Rightarrow> Some (declined False ctx)
      | Some sameGroupCondition \<Rightarrow>
          (let sameGroupPairs = parseSameGroupInput (input sameGroupCondition)
           in if sameGroupPairs = [] then Some (declined True ctx)
              else
                (case sameGroupLoop sameGroupPairs (ctxRemaining ctx) (ctxGroups ctx) {} of
                   None \<Rightarrow> None
                 | Some (gs, processed) \<Rightarrow>
                     passOn nextHandle rs SameRest ctx gs
                       (filter (\<lambda>s. sid s \<notin> processed) (ctxRemaining ctx)))))"

subsection \<open>BlockDistributionHandler\<close>

definition configuredBlocks :: "condition \<Rightarrow> int list list" where
  "configuredBlocks c =
     (case blockInputs c of
        None \<Rightarrow> []
      | Some slots \<Rightarrow>
          concat (map (\<lambda>sl. case sl of
                              Str inp \<Rightarrow>
                                if trim inp \<noteq> []
                                then (let parsedBlock = parseBlockInput inp
                                      in if parsedBlock \<noteq> [] then [parsedBlock] else [])
                                else []
                            | _ \<Rightarrow> []) slots))"

definition blockStudentMap :: "int list list \<Rightarrow> int \<Rightarrow> nat option" where
  "blockStudentMap blocks =
     foldl (\<lambda>m (block, blockIndex). foldl (\<lambda>m studentId. m(studentId \<mapsto> blockIndex)) m block)
       Map.empty (zip blocks [0..<length blocks])"

definition blockGroups ::
  "(int \<Rightarrow> nat option) \<Rightarrow> nat \<Rightarrow> student list \<Rightarrow> student list list \<times> int set" where
  "blockGroups m blockCount remainingStudents =
     foldl (\<lambda>(bg, processed) student.
              case m (sid student) of
                None \<Rightarrow> (bg, processed)
              | Some blockIndex \<Rightarrow>
                  (bg[blockIndex := bg ! blockIndex @ [student]], insert (sid student) processed))
       (replicate blockCount [], {}) remainingStudents"

fun assignRoundRobin ::
  "nat \<Rightarrow> student list \<Rightarrow> nat \<Rightarrow> groups \<Rightarrow> (groups \<times> nat) option" where
  "assignRoundRobin totalGroups [] currentGroupIndex gs = Some (gs, currentGroupIndex)"
| "assignRoundRobin totalGroups (student # rest) currentGroupIndex gs =
     (case pushTo currentGroupIndex student gs of
        None \<Rightarrow> None
      | Some gs' \<Rightarrow> assignRoundRobin totalGroups rest ((currentGroupIndex + 1) mod totalGroups) gs')"

fun distributeBlocks ::
  "randsrc \<Rightarrow> nat \<Rightarrow> student list list \<Rightarrow> nat \<Rightarrow> nat \<Rightarrow> groups \<Rightarrow> (groups \<times> nat) option" where
  "distributeBlocks rs totalGroups [] blockIndex currentGroupIndex gs = Some (gs, currentGroupIndex)"
| "distributeBlocks rs totalGroups (blockStudents # rest) blockIndex currentGroupIndex gs =
     (case assignRoundRobin totalGroups (shuf rs (BlockShuffle blockIndex) blockStudents)
             currentGroupIndex gs of
        None \<Rightarrow> None
      | Some (gs', currentGroupIndex') \<Rightarrow>
          distributeBlocks rs totalGroups rest (Suc blockIndex) currentGroupIndex' gs')"

definition distributeBlockStudents ::
  "randsrc \<Rightarrow> groups \<Rightarrow> int list list \<Rightarrow> student list \<Rightarrow> (groups \<times> int set) option" where
  "distributeBlockStudents rs gs blocks remainingStudents =
     (let (bg, processed) = blockGroups (blockStudentMap blocks) (length blocks) remainingStudents
      in case distributeBlocks rs (length gs) bg 0 0 gs of
           None \<Rightarrow> None
         | Some (gs', currentGroupIndex) \<Rightarrow> Some (gs', processed))"

definition blockProcess ::
  "(groupingContext \<Rightarrow> groupingResult option) \<Rightarrow> randsrc \<Rightarrow> groupingContext
     \<Rightarrow> groupingResult option" where
  "blockProcess nextHandle rs ctx =
     (case findCondition ''block-distribution'' (ctxConditions ctx) of
        None \<Rightarrow> Some (declined False ctx)
      | Some blockDistributionCondition \<Rightarrow>
          (let blocks = configuredBlocks blockDistributionCondition
           in if blocks = [] then Some (declined True ctx)
              else
                (case distributeBlockStudents rs (ctxGroups ctx) blocks (ctxRemaining ctx) of
                   None \<Rightarrow> None
                 | Some (gs, processed) \<Rightarrow>
                     passOn nextHandle rs BlockRest ctx gs
                       (filter (\<lambda>s. sid s \<notin> processed) (ctxRemaining ctx)))))"

subsection \<open>The chain and \<open>StudentService.performGrouping\<close>\<close>

definition differentHandle :: "randsrc \<Rightarrow> groupingContext \<Rightarrow> groupingResult option" where
  "differentHandle rs = handleWith (differentProcess (genderHandle rs) rs) (genderHandle rs)"

definition sameHandle :: "randsrc \<Rightarrow> groupingContext \<Rightarrow> groupingResult option" where
  "sameHandle rs = handleWith (sameProcess (differentHandle rs) rs) (differentHandle rs)"

definition blockHandle :: "randsrc \<Rightarrow> groupingContext \<Rightarrow> groupingResult option" where
  "blockHandle rs = handleWith (blockProcess (sameHandle rs) rs) (sameHandle rs)"

definition resetLeader :: "student \<Rightarrow> student" where
  "resetLeader s = s\<lparr>isLeader := False\<rparr>"

text \<open>
  \<open>performGrouping\<close>, for \<open>saved\<close> the conditions saved in GroupingConditionsService,
  \<open>groupCount\<close> the number of groups of the service and \<open>roster\<close> its students. The
  result is the new group list, or \<open>None\<close> when the code throws (the group list of the
  service is then left as it was: it is only written at the end).
\<close>

definition performGrouping ::
  "randsrc \<Rightarrow> condition list \<Rightarrow> nat \<Rightarrow> student list \<Rightarrow> groups option" where
  "performGrouping rs saved groupCount roster =
     (let students = map resetLeader roster;
          gs = replicate groupCount [];
          enabledConditions = filter enabled saved;
          ctx = \<lparr>ctxStudents = students, ctxGroups = gs, ctxConditions = enabledConditions,
                 ctxRemaining = students\<rparr>
      in case blockHandle rs ctx of
           None \<Rightarrow> None
         | Some result \<Rightarrow>
             forceEqualDistribution rs (if handled result then resGroups result else gs) students)"

section \<open>The services\<close>

subsection \<open>StudentService: the roster\<close>

definition newStudent :: "gender \<Rightarrow> int \<Rightarrow> student" where
  "newStudent g i = \<lparr>sid = i, gender = g, isLeader = False\<rparr>"

definition initializeStudents :: "string \<Rightarrow> string \<Rightarrow> student list" where
  "initializeStudents maleInput femaleInput =
     sortBy byId (map (newStudent Male) (parseNumberInput maleInput)
                  @ map (newStudent Female) (parseNumberInput femaleInput))"

text \<open>
  The state that \<open>addStudents\<close> touches: the student list and the students of each
  block. A call returns the error it throws, if any, with the state at that moment.
\<close>

record rosterState =
  students :: "student list"
  blocks :: "student list list"

datatype serviceError = AlreadyExists "int list"

definition updateBlocksAfterStudentChange :: "rosterState \<Rightarrow> rosterState" where
  "updateBlocksAfterStudentChange st =
     st\<lparr>blocks := map (filter (\<lambda>s. sid s \<in> sid ` set (students st))) (blocks st)\<rparr>"

definition addStudents :: "string \<Rightarrow> gender \<Rightarrow> rosterState \<Rightarrow> serviceError option \<times> rosterState" where
  "addStudents inp g st =
     (let newNumbers = parseNumberInput inp;
          existingIds = map sid (students st);
          duplicates = filter (\<lambda>i. i \<in> set existingIds) newNumbers
      in if duplicates \<noteq> [] then (Some (AlreadyExists duplicates), st)
         else
           (let newStudents = map (newStudent g) newNumbers;
                st1 = st\<lparr>students := sortBy byId (students st @ newStudents)\<rparr>
            in (None, updateBlocksAfterStudentChange st1)))"

subsection \<open>GroupingConditionsService\<close>

definition initialConditions :: "condition list" where
  "initialConditions =
     [\<lparr>cid = ''block-distribution'', ctype = ''block-distribution'', enabled = False, input = [],
        blockInputs = Some [Str [], Str [], Str []]\<rparr>,
      \<lparr>cid = ''same-group'', ctype = ''same-group'', enabled = False, input = [],
        blockInputs = None\<rparr>,
      \<lparr>cid = ''different-group'', ctype = ''different-group'', enabled = False, input = [],
        blockInputs = None\<rparr>,
      \<lparr>cid = ''gender-ratio'', ctype = ''gender-ratio'', enabled = False, input = [],
        blockInputs = None\<rparr>]"

text \<open>
  The service keeps the saved conditions and the copy that the dialog edits.
  \<open>updateBlockInput(conditionId, blockIndex, value)\<close> works on the copy. It returns
  at once when the stored string at \<open>blockIndex\<close> of the first condition with that id
  is \<open>value\<close> (compared with \<open>===\<close>). Otherwise every condition with that id and a
  \<open>blockInputs\<close> array gets a copy of the array (\<open>[...blockInputs]\<close>, which turns holes
  into \<open>undefined\<close>) with \<open>value\<close> stored at \<open>blockIndex\<close> (an index past the end
  leaves holes), and as \<open>input\<close> the blocks whose \<open>trim()\<close> is not empty, joined by
  line feeds; \<open>filter\<close> skips holes and \<open>undefined.trim()\<close> throws (\<open>None\<close>), before
  the state is written. \<open>blockIndex\<close> is an array index, a natural number.
\<close>

record conditionsState =
  savedConditions :: "condition list"
  editingConditions :: "condition list"

definition spreadSlots :: "slot list \<Rightarrow> slot list" where
  "spreadSlots slots = map (\<lambda>sl. case sl of Hole \<Rightarrow> Undef | _ \<Rightarrow> sl) slots"

definition assignSlot :: "nat \<Rightarrow> string \<Rightarrow> slot list \<Rightarrow> slot list" where
  "assignSlot i v slots =
     (if i < length slots then slots[i := Str v]
      else slots @ replicate (i - length slots) Hole @ [Str v])"

fun truthyBlocks :: "slot list \<Rightarrow> string list option" where
  "truthyBlocks [] = Some []"
| "truthyBlocks (Hole # r) = truthyBlocks r"
| "truthyBlocks (Undef # r) = None"
| "truthyBlocks (Str s # r) =
     map_option (\<lambda>bs. if trim s \<noteq> [] then s # bs else bs) (truthyBlocks r)"

fun joinLines :: "string list \<Rightarrow> string" where
  "joinLines [] = []"
| "joinLines [l] = l"
| "joinLines (l # ls) = l @ CHR 0x0A # joinLines ls"

definition updateCondition :: "string \<Rightarrow> nat \<Rightarrow> string \<Rightarrow> condition \<Rightarrow> condition option" where
  "updateCondition conditionId blockIndex v c =
     (case blockInputs c of
        Some slots \<Rightarrow>
          if cid c = conditionId then
            (let newBlockInputs = assignSlot blockIndex v (spreadSlots slots)
             in case truthyBlocks newBlockInputs of
                  None \<Rightarrow> None
                | Some bs \<Rightarrow> Some (c\<lparr>input := joinLines bs, blockInputs := Some newBlockInputs\<rparr>))
          else Some c
      | None \<Rightarrow> Some c)"

definition storedBlock :: "string \<Rightarrow> nat \<Rightarrow> condition list \<Rightarrow> slot" where
  "storedBlock conditionId blockIndex conds =
     (case find (\<lambda>c. cid c = conditionId) conds of
        None \<Rightarrow> Undef
      | Some c \<Rightarrow>
          (case blockInputs c of
             None \<Rightarrow> Undef
           | Some slots \<Rightarrow>
               if blockIndex < length slots
               then (case slots ! blockIndex of Hole \<Rightarrow> Undef | sl \<Rightarrow> sl)
               else Undef))"

definition updateBlockInput ::
  "string \<Rightarrow> nat \<Rightarrow> string \<Rightarrow> conditionsState \<Rightarrow> conditionsState option" where
  "updateBlockInput conditionId blockIndex v st =
     (let currentEditing = editingConditions st
      in if storedBlock conditionId blockIndex currentEditing = Str v then Some st
         else (case those (map (updateCondition conditionId blockIndex v) currentEditing) of
                 None \<Rightarrow> None
               | Some updatedConditions \<Rightarrow> Some (st\<lparr>editingConditions := updatedConditions\<rparr>)))"

definition stringSlots :: "condition list \<Rightarrow> bool" where
  "stringSlots conds \<longleftrightarrow>
     (\<forall>c \<in> set conds. case blockInputs c of
                          None \<Rightarrow> True
                        | Some slots \<Rightarrow> Undef \<notin> set slots \<and> Hole \<notin> set slots)"

subsection \<open>The conditions dialog: validation of the same-group input\<close>








subsection \<open>Sorting and parsing facts\<close>

lemma set_insortBy: "set (insortBy cmp x ys) = insert x (set ys)"
  by (induction ys) auto

lemma sorted_insortBy_key:
  fixes f :: "'a \<Rightarrow> int"
  assumes "\<And>a b. cmp a b = f a - f b"
  shows "sorted (map f ys) \<Longrightarrow> sorted (map f (insortBy cmp x ys))"
  by (induction ys) (auto simp: assms set_insortBy)

lemma sorted_sortBy_key:
  fixes f :: "'a \<Rightarrow> int"
  assumes "\<And>a b. cmp a b = f a - f b"
  shows "sorted (map f (sortBy cmp xs))"
  by (induction xs) (auto simp: sortBy_def intro: sorted_insortBy_key[OF assms])

lemma sorted_sortBy_byId: "sorted (map sid (sortBy byId xs))"
  by (rule sorted_sortBy_key) (simp add: byId_def)

lemma distinct_uniq: "distinct (uniq seen xs) \<and> set (uniq seen xs) \<inter> set seen = {}"
  by (induction seen xs rule: uniq.induct) auto

lemma distinct_sortBy: "distinct (sortBy cmp xs) = distinct xs"
  by (metis mset_sortBy mset_eq_imp_distinct_iff)

lemma distinct_parseNumberInput: "distinct (parseNumberInput inp)"
  by (simp add: parseNumberInput_def Let_def distinct_sortBy distinct_uniq)

lemma distinct_map_sortBy: "distinct (map f (sortBy cmp xs)) = distinct (map f xs)"
proof -
  have "mset (map f (sortBy cmp xs)) = mset (map f xs)" by (simp add: mset_sortBy)
  then show ?thesis by (rule mset_eq_imp_distinct_iff)
qed

subsection \<open>The round robin of BlockDistributionHandler in closed form\<close>

text \<open>
  \<open>roundRobinFrom n k xs gs\<close>: the \<open>j\<close>-th student of \<open>xs\<close> is added to group
  \<open>(k + j) mod n\<close>. \<open>shuffledBlocks\<close> is the sequence of the shuffled blocks, one
  after the other.
\<close>

definition roundRobinFrom :: "nat \<Rightarrow> nat \<Rightarrow> student list \<Rightarrow> groups \<Rightarrow> groups" where
  "roundRobinFrom n k xs gs =
     map (\<lambda>i. gs ! i @ map (\<lambda>j. xs ! j) (filter (\<lambda>j. (k + j) mod n = i) [0..<length xs])) [0..<n]"

fun shuffledBlocks :: "randsrc \<Rightarrow> nat \<Rightarrow> student list list \<Rightarrow> student list" where
  "shuffledBlocks rs blockIndex [] = []"
| "shuffledBlocks rs blockIndex (b # bs) =
     shuf rs (BlockShuffle blockIndex) b @ shuffledBlocks rs (Suc blockIndex) bs"

lemma filter_upt_Suc:
  "filter P [0..<Suc m] = (if P 0 then [0] else []) @ map Suc (filter (\<lambda>j. P (Suc j)) [0..<m])"
proof -
  have "[0..<Suc m] = 0 # map Suc [0..<m]"
    by (simp add: upt_conv_Cons map_Suc_upt del: upt_Suc)
  then show ?thesis by (simp add: filter_map comp_def del: upt_Suc)
qed

lemma roundRobinFrom_Cons:
  assumes "0 < n" "length gs = n"
  shows "roundRobinFrom n k (x # xs) gs
       = roundRobinFrom n (Suc k) xs (gs[k mod n := gs ! (k mod n) @ [x]])"
  unfolding roundRobinFrom_def
proof (rule map_cong[OF refl])
  fix i assume "i \<in> set [0..<n]"
  then have i: "i < length gs" using assms by simp
  show "gs ! i @ map ((!) (x # xs)) (filter (\<lambda>j. (k + j) mod n = i) [0..<length (x # xs)])
      = gs[k mod n := gs ! (k mod n) @ [x]] ! i
        @ map ((!) xs) (filter (\<lambda>j. (Suc k + j) mod n = i) [0..<length xs])"
    using i by (simp add: filter_upt_Suc nth_list_update comp_def del: upt_Suc)
qed

lemma roundRobinFrom_Nil: "length gs = n \<Longrightarrow> roundRobinFrom n k [] gs = gs"
  by (auto simp: roundRobinFrom_def intro: nth_equalityI)

lemma assignRoundRobin_closed:
  "0 < n \<Longrightarrow> length gs = n \<Longrightarrow>
   assignRoundRobin n xs (k mod n) gs = Some (roundRobinFrom n k xs gs, (k + length xs) mod n)"
proof (induction xs arbitrary: k gs)
  case Nil
  then show ?case by (simp add: roundRobinFrom_Nil)
next
  case (Cons x xs)
  have "(k mod n + 1) mod n = Suc k mod n" by (simp add: mod_Suc_eq)
  with Cons.IH[of "gs[k mod n := gs ! (k mod n) @ [x]]" "Suc k"] Cons.prems
  show ?case by (simp add: pushTo_def roundRobinFrom_Cons)
qed

lemma assignRoundRobin_append:
  "assignRoundRobin n (xs @ ys) c gs =
     (case assignRoundRobin n xs c gs of None \<Rightarrow> None
      | Some (gs1, c1) \<Rightarrow> assignRoundRobin n ys c1 gs1)"
  by (induction xs arbitrary: c gs) (auto split: option.splits)

lemma distributeBlocks_concat:
  "distributeBlocks rs n bgs bi c gs = assignRoundRobin n (shuffledBlocks rs bi bgs) c gs"
  by (induction bgs arbitrary: bi c gs) (auto simp: assignRoundRobin_append split: option.splits)

lemma distributeBlocks_append:
  "distributeBlocks rs n (bs1 @ bs2) bi c gs =
     (case distributeBlocks rs n bs1 bi c gs of None \<Rightarrow> None
      | Some (gs1, c1) \<Rightarrow> distributeBlocks rs n bs2 (bi + length bs1) c1 gs1)"
  by (induction bs1 arbitrary: bi c gs) (auto split: option.splits)

section \<open>Soundness of the handler chain\<close>

text \<open>
  Every handler keeps the number of groups, never duplicates a student and only
  places students of the roster; what a handler cannot place is put into the
  smallest group by \<open>distributeRemainingStudents\<close>.  The invariant is
  \<open>ctxOK\<close>, and \<open>handlerOK\<close> states that a handler preserves it and
  does not throw when there is at least one group.
\<close>

definition ctxOK :: "student list \<Rightarrow> groups \<Rightarrow> student list \<Rightarrow> bool" where
  "ctxOK R gs remaining \<longleftrightarrow>
     distinct (map sid (concat gs @ remaining)) \<and> set (concat gs) \<union> set remaining \<subseteq> set R"

definition handlerOK :: "student list \<Rightarrow> (groupingContext \<Rightarrow> groupingResult option) \<Rightarrow> bool" where
  "handlerOK R h \<longleftrightarrow>
     (\<forall>ctx. (ctxGroups ctx \<noteq> [] \<longrightarrow> h ctx \<noteq> None)
        \<and> (\<forall>r. h ctx = Some r \<longrightarrow>
              length (resGroups r) = length (ctxGroups ctx)
              \<and> (ctxOK R (ctxGroups ctx) (ctxRemaining ctx) \<longrightarrow> ctxOK R (resGroups r) [])))"

lemma distinct_mset_sub:
  assumes "mset xs \<subseteq># mset ys" "distinct ys"
  shows "distinct xs"
  unfolding distinct_count_atmost_1
proof
  fix a
  have le: "count (mset xs) a \<le> count (mset ys) a" using assms(1) by (rule mset_subset_eq_count)
  have le1: "count (mset ys) a \<le> 1" using assms(2) by (simp add: distinct_count_atmost_1)
  show "count (mset xs) a = (if a \<in> set xs then 1 else 0)"
  proof (cases "a \<in> set xs")
    case True
    then have "count (mset xs) a \<noteq> 0" by (simp only: count_eq_zero_iff set_mset_mset not_not)
    with le le1 have "count (mset xs) a = 1" by linarith
    with True show ?thesis by (simp only: if_True)
  next
    case False
    then have "count (mset xs) a = 0" by (simp only: count_eq_zero_iff set_mset_mset not_False_eq_True)
    with False show ?thesis by (simp only: if_False)
  qed
qed

lemma ctxOK_mset:
  "mset (concat gs') + mset rem' \<subseteq># mset (concat gs) + mset rem \<Longrightarrow> ctxOK R gs rem
   \<Longrightarrow> ctxOK R gs' rem'"
proof -
  assume sub: "mset (concat gs') + mset rem' \<subseteq># mset (concat gs) + mset rem"
    and ok: "ctxOK R gs rem"
  have m: "mset (concat gs' @ rem') \<subseteq># mset (concat gs @ rem)" using sub by simp
  then have "mset (map sid (concat gs' @ rem')) \<subseteq># mset (map sid (concat gs @ rem))"
    unfolding mset_map by (rule image_mset_subseteq_mono)
  moreover have "distinct (map sid (concat gs @ rem))" using ok by (simp add: ctxOK_def)
  ultimately have "distinct (map sid (concat gs' @ rem'))"
    by (rule distinct_mset_sub)
  moreover have "set (concat gs' @ rem') \<subseteq> set (concat gs @ rem)"
    using m by (metis set_mset_mono set_mset_mset)
  then have "set (concat gs') \<union> set rem' \<subseteq> set (concat gs) \<union> set rem"
    by (simp only: set_append)
  moreover have "set (concat gs) \<union> set rem \<subseteq> set R" using ok by (simp only: ctxOK_def)
  ultimately show ?thesis unfolding ctxOK_def by blast
qed

lemma pushTo_Some:
  "pushTo i s gs = Some gs' \<Longrightarrow> i < length gs \<and> gs' = gs[i := gs ! i @ [s]]"
  by (auto simp: pushTo_def split: if_splits)

lemma reduceMin_mem: "reduceMin gs idxs = Some t \<Longrightarrow> t \<in> set idxs"
proof -
  have "\<And>i. foldl (\<lambda>m c. if length (gs ! c) < length (gs ! m) then c else m) i rest \<in> set (i # rest)" for rest
    by (induction rest rule: rev_induct) auto
  then show "reduceMin gs idxs = Some t \<Longrightarrow> t \<in> set idxs"
    by (auto simp: reduceMin_def split: list.splits)
qed

lemma reduceMin_None: "reduceMin gs idxs = None \<longleftrightarrow> idxs = []"
  by (auto simp: reduceMin_def split: list.splits)

lemma placeAtMin_spec:
  "(gs \<noteq> [] \<longrightarrow> placeAtMin xs gs \<noteq> None)
   \<and> (\<forall>gs'. placeAtMin xs gs = Some gs' \<longrightarrow>
         length gs' = length gs \<and> mset (concat gs') = mset (concat gs) + mset xs)"
proof (induction xs arbitrary: gs)
  case Nil
  then show ?case by simp
next
  case (Cons x xs)
  show ?case
  proof (cases "reduceMin gs [0..<length gs]")
    case None
    then have "gs = []" by (simp add: reduceMin_None)
    with None show ?thesis by simp
  next
    case (Some t)
    then have t: "t < length gs" using reduceMin_mem[OF Some] by simp
    let ?g1 = "gs[t := gs ! t @ [x]]"
    have p: "pushTo t x gs = Some ?g1" using t by (simp add: pushTo_def)
    have g1: "?g1 \<noteq> []" "length ?g1 = length gs" using t by auto
    from Cons.IH[of ?g1] g1 t Some p show ?thesis
      by (auto simp: mset_concat_update)
  qed
qed

lemma distributeRemaining_spec:
  assumes "fair rs"
  shows "(gs \<noteq> [] \<longrightarrow> distributeRemainingStudents rs site gs xs \<noteq> None)
   \<and> (\<forall>gs'. distributeRemainingStudents rs site gs xs = Some gs' \<longrightarrow>
         length gs' = length gs \<and> mset (concat gs') = mset (concat gs) + mset xs)"
  using placeAtMin_spec[of gs "shuf rs site xs"] assms
  by (simp add: distributeRemainingStudents_def fair_def)

lemma passOn_ok:
  assumes rs: "fair rs" and nxt: "handlerOK R nextHandle"
  shows "(gs \<noteq> [] \<longrightarrow> passOn nextHandle rs site ctx gs final \<noteq> None)
    \<and> (\<forall>r. passOn nextHandle rs site ctx gs final = Some r \<longrightarrow>
          length (resGroups r) = length gs \<and> (ctxOK R gs final \<longrightarrow> ctxOK R (resGroups r) []))"
proof (cases "final = []")
  case True
  then show ?thesis by (simp add: passOn_def)
next
  case False
  let ?ctx = "ctx\<lparr>ctxGroups := gs, ctxRemaining := final\<rparr>"
  have "(ctxGroups ?ctx \<noteq> [] \<longrightarrow> nextHandle ?ctx \<noteq> None)
        \<and> (\<forall>r. nextHandle ?ctx = Some r \<longrightarrow>
              length (resGroups r) = length (ctxGroups ?ctx)
              \<and> (ctxOK R (ctxGroups ?ctx) (ctxRemaining ?ctx) \<longrightarrow> ctxOK R (resGroups r) []))"
    using nxt unfolding handlerOK_def by blast
  then have n1: "gs \<noteq> [] \<longrightarrow> nextHandle ?ctx \<noteq> None"
    and n2: "\<And>r. nextHandle ?ctx = Some r \<Longrightarrow> length (resGroups r) = length gs
        \<and> (ctxOK R gs final \<longrightarrow> ctxOK R (resGroups r) [])"
    by simp_all
  note d = distributeRemaining_spec[OF rs, of gs site final]
  show ?thesis
  proof (cases "nextHandle ?ctx")
    case None
    with n1 False show ?thesis by (simp add: passOn_def)
  next
    case (Some nr)
    show ?thesis
    proof (cases "handled nr")
      case True
      with Some False n2[OF Some] show ?thesis by (simp add: passOn_def)
    next
      case nh: False
      show ?thesis
      proof (cases "distributeRemainingStudents rs site gs final")
        case None
        with d Some nh False show ?thesis by (simp add: passOn_def)
      next
        case (Some gs')
        with d have "length gs' = length gs" "mset (concat gs') = mset (concat gs) + mset final"
          by auto
        then have "ctxOK R gs final \<longrightarrow> ctxOK R gs' []"
          using ctxOK_mset[of gs' "[]" gs final R] by simp
        with Some \<open>nextHandle ?ctx = Some nr\<close> nh False \<open>length gs' = length gs\<close>
        show ?thesis by (simp add: passOn_def)
      qed
    qed
  qed
qed

lemma fisherYates_mset:
  "\<forall>k. d k \<le> k \<Longrightarrow> i < length xs \<Longrightarrow> mset (fisherYates d i xs) = mset xs"
proof (induction i arbitrary: xs)
  case 0
  then show ?case by simp
next
  case (Suc i)
  let ?j = "d (Suc i)"
  let ?xs' = "xs[Suc i := xs ! ?j, ?j := xs ! Suc i]"
  have j: "?j < length xs" using Suc.prems by (metis le_less_trans)
  have "mset ?xs' = mset xs" using j Suc.prems(2) by (simp add: mset_swap)
  moreover have "i < length ?xs'" using Suc.prems(2) by simp
  ultimately show ?case using Suc.IH[of ?xs'] Suc.prems(1) by (simp add: Let_def)
qed

lemma shuffleArray_mset: "\<forall>k. d k \<le> k \<Longrightarrow> mset (shuffleArray d xs) = mset xs"
  by (cases xs) (simp_all add: shuffleArray_def fisherYates_mset)

lemma placeMales_spec:
  "\<forall>st \<in> set stats. index st < length gs \<Longrightarrow>
   (stats \<noteq> [] \<longrightarrow> placeMales ideal xs stats gs \<noteq> None)
   \<and> (\<forall>stats' gs'. placeMales ideal xs stats gs = Some (stats', gs') \<longrightarrow>
         length gs' = length gs \<and> mset (concat gs') = mset (concat gs) + mset xs
         \<and> (\<forall>st \<in> set stats'. index st < length gs') \<and> (stats \<noteq> [] \<longrightarrow> stats' \<noteq> []))"
proof (induction xs arbitrary: stats gs)
  case Nil
  then show ?case by simp
next
  case (Cons x xs)
  show ?case
  proof (cases "sortBy (cmpForMale ideal) stats")
    case Nil
    then have "stats = []" by (metis length_0_conv length_sortBy)
    with Nil show ?thesis by simp
  next
    case (Cons t others)
    then have mem: "set (t # others) = set stats" by (metis set_sortBy)
    then have t: "index t < length gs" using Cons.prems by auto
    let ?g1 = "gs[index t := gs ! index t @ [x]]"
    let ?s1 = "t\<lparr>males := males t + 1, total := total t + 1,
                    genderDiff := \<bar>males t + 1 - females t\<bar>\<rparr> # others"
    have p: "pushTo (index t) x gs = Some ?g1" using t by (simp add: pushTo_def)
    have s1: "\<forall>st \<in> set ?s1. index st < length ?g1" using mem Cons.prems by auto
    have ne: "stats \<noteq> []" using mem by auto
    from Cons.IH[OF s1] p Cons ne t show ?thesis
      by (auto simp: mset_concat_update)
  qed
qed

lemma placeFemales_spec:
  "\<forall>st \<in> set stats. index st < length gs \<Longrightarrow>
   (stats \<noteq> [] \<longrightarrow> placeFemales ideal xs stats gs \<noteq> None)
   \<and> (\<forall>stats' gs'. placeFemales ideal xs stats gs = Some (stats', gs') \<longrightarrow>
         length gs' = length gs \<and> mset (concat gs') = mset (concat gs) + mset xs
         \<and> (\<forall>st \<in> set stats'. index st < length gs') \<and> (stats \<noteq> [] \<longrightarrow> stats' \<noteq> []))"
proof (induction xs arbitrary: stats gs)
  case Nil
  then show ?case by simp
next
  case (Cons x xs)
  show ?case
  proof (cases "sortBy (cmpForFemale ideal) stats")
    case Nil
    then have "stats = []" by (metis length_0_conv length_sortBy)
    with Nil show ?thesis by simp
  next
    case (Cons t others)
    then have mem: "set (t # others) = set stats" by (metis set_sortBy)
    then have t: "index t < length gs" using Cons.prems by auto
    let ?g1 = "gs[index t := gs ! index t @ [x]]"
    let ?s1 = "t\<lparr>females := females t + 1, total := total t + 1,
                    genderDiff := \<bar>males t - (females t + 1)\<bar>\<rparr> # others"
    have p: "pushTo (index t) x gs = Some ?g1" using t by (simp add: pushTo_def)
    have s1: "\<forall>st \<in> set ?s1. index st < length ?g1" using mem Cons.prems by auto
    have ne: "stats \<noteq> []" using mem by auto
    from Cons.IH[OF s1] p Cons ne t show ?thesis
      by (auto simp: mset_concat_update)
  qed
qed

lemma groupGenderStats_index: "\<forall>st \<in> set (groupGenderStats gs). index st < length gs"
  by (auto simp: groupGenderStats_def Let_def)

lemma groupGenderStats_Nil: "groupGenderStats gs = [] \<longleftrightarrow> gs = []"
  by (simp add: groupGenderStats_def)

lemma genderProcess_spec:
  assumes rs: "fair rs"
  shows "(ctxGroups ctx \<noteq> [] \<longrightarrow> genderProcess rs ctx \<noteq> None)
    \<and> (\<forall>r. genderProcess rs ctx = Some r \<longrightarrow>
          length (resGroups r) = length (ctxGroups ctx)
          \<and> (handled r \<longrightarrow> mset (concat (resGroups r))
                = mset (concat (ctxGroups ctx)) + mset (ctxRemaining ctx))
          \<and> (\<not> handled r \<longrightarrow> resGroups r = ctxGroups ctx))"
proof (cases "findCondition ''gender-ratio'' (ctxConditions ctx)")
  case None
  then show ?thesis by (simp add: genderProcess_def declined_def)
next
  case (Some c)
  let ?gs = "ctxGroups ctx"
  let ?ms = "filter (\<lambda>s. gender s = Male) (ctxRemaining ctx)"
  let ?fs = "filter (\<lambda>s. gender s = Female) (ctxRemaining ctx)"
  show ?thesis
  proof (cases "?ms = [] \<and> ?fs = []")
    case True
    with Some show ?thesis by (simp add: genderProcess_def)
  next
    case False
    let ?sm = "shuffleArray (draw rs GenderMales) ?ms"
    let ?sf = "shuffleArray (draw rs GenderFemales) ?fs"
    let ?ideal = "idealGroupSize (length ?ms + length ?fs + length (concat ?gs)) (length ?gs)"
    have d: "\<forall>k. draw rs GenderMales k \<le> k" "\<forall>k. draw rs GenderFemales k \<le> k"
      using rs by (simp_all add: fair_def)
    note pm = placeMales_spec[OF groupGenderStats_index, of ?gs ?ideal ?sm]
    show ?thesis
    proof (cases "placeMales ?ideal ?sm (groupGenderStats ?gs) ?gs")
      case None
      with pm have "?gs = []" by (simp add: groupGenderStats_Nil)
      with None Some False show ?thesis by (simp add: genderProcess_def Let_def)
    next
      case pmS: (Some a)
      obtain stats1 gs1 where a: "a = (stats1, gs1)" by (cases a)
      from pm pmS a have g1: "length gs1 = length ?gs"
        "mset (concat gs1) = mset (concat ?gs) + mset ?sm"
        "\<forall>st \<in> set stats1. index st < length gs1" "?gs \<noteq> [] \<longrightarrow> stats1 \<noteq> []"
        by (auto simp: groupGenderStats_Nil)
      note pf = placeFemales_spec[OF g1(3), of ?ideal ?sf]
      show ?thesis
      proof (cases "placeFemales ?ideal ?sf stats1 gs1")
        case None
        with pf g1 have "?gs = []" by auto
        with None pmS a Some False show ?thesis by (simp add: genderProcess_def Let_def)
      next
        case pfS: (Some b)
        obtain stats2 gs2 where b: "b = (stats2, gs2)" by (cases b)
        from pf pfS b have g2: "length gs2 = length gs1"
          "mset (concat gs2) = mset (concat gs1) + mset ?sf" by auto
        have "mset ?sm + mset ?sf = mset (ctxRemaining ctx)"
          using d gender_split[of "ctxRemaining ctx"] by (simp add: shuffleArray_mset)
        with g1 g2 have "mset (concat gs2) = mset (concat ?gs) + mset (ctxRemaining ctx)"
          by (simp add: add.assoc)
        with g1 g2 pfS b pmS a Some False show ?thesis
          by (simp add: genderProcess_def Let_def)
      qed
    qed
  qed
qed

lemma genderHandle_ok: "fair rs \<Longrightarrow> handlerOK R (genderHandle rs)"
  unfolding handlerOK_def genderHandle_def
proof (intro allI conjI impI)
  fix ctx :: groupingContext assume "fair rs" "ctxGroups ctx \<noteq> []"
  then show "genderProcess rs ctx \<noteq> None" using genderProcess_spec[of rs ctx] by simp
next
  fix ctx :: groupingContext and r assume "fair rs" "genderProcess rs ctx = Some r"
  then show "length (resGroups r) = length (ctxGroups ctx)"
    using genderProcess_spec[of rs ctx] by simp
next
  fix ctx :: groupingContext and r assume a: "fair rs" "genderProcess rs ctx = Some r"
    "ctxOK R (ctxGroups ctx) (ctxRemaining ctx)"
  from genderProcess_spec[OF a(1), of ctx] a(2)
  have "mset (concat (resGroups r)) + mset [] \<subseteq>#
        mset (concat (ctxGroups ctx)) + mset (ctxRemaining ctx)"
    by (cases "handled r") auto
  from ctxOK_mset[OF this a(3)] show "ctxOK R (resGroups r) []" .
qed

lemma handleWith_ok:
  assumes "handlerOK R process" "handlerOK R nextHandle"
  shows "handlerOK R (handleWith process nextHandle)"
  unfolding handlerOK_def
proof (intro allI)
  fix ctx :: groupingContext
  have p: "(ctxGroups ctx \<noteq> [] \<longrightarrow> process ctx \<noteq> None)
        \<and> (\<forall>r. process ctx = Some r \<longrightarrow>
              length (resGroups r) = length (ctxGroups ctx)
              \<and> (ctxOK R (ctxGroups ctx) (ctxRemaining ctx) \<longrightarrow> ctxOK R (resGroups r) []))"
    using assms(1) unfolding handlerOK_def by blast
  have n: "(ctxGroups ctx \<noteq> [] \<longrightarrow> nextHandle ctx \<noteq> None)
        \<and> (\<forall>r. nextHandle ctx = Some r \<longrightarrow>
              length (resGroups r) = length (ctxGroups ctx)
              \<and> (ctxOK R (ctxGroups ctx) (ctxRemaining ctx) \<longrightarrow> ctxOK R (resGroups r) []))"
    using assms(2) unfolding handlerOK_def by blast
  show "(ctxGroups ctx \<noteq> [] \<longrightarrow> handleWith process nextHandle ctx \<noteq> None)
        \<and> (\<forall>r. handleWith process nextHandle ctx = Some r \<longrightarrow>
              length (resGroups r) = length (ctxGroups ctx)
              \<and> (ctxOK R (ctxGroups ctx) (ctxRemaining ctx) \<longrightarrow> ctxOK R (resGroups r) []))"
  proof (cases "process ctx")
    case None
    with p show ?thesis by (simp add: handleWith_def)
  next
    case (Some pr)
    with p n show ?thesis by (cases "success pr") (simp_all add: handleWith_def)
  qed
qed

lemma declined_ok:
  "length (resGroups (declined b ctx)) = length (ctxGroups ctx)
   \<and> (ctxOK R (ctxGroups ctx) (ctxRemaining ctx) \<longrightarrow> ctxOK R (resGroups (declined b ctx)) [])"
proof -
  have "mset (concat (ctxGroups ctx)) + mset [] \<subseteq># mset (concat (ctxGroups ctx)) + mset (ctxRemaining ctx)"
    by simp
  from ctxOK_mset[OF this] show ?thesis by (auto simp: declined_def)
qed


lemma assignRoundRobin_total:
  "n = length gs \<Longrightarrow> c < n \<Longrightarrow> assignRoundRobin n xs c gs \<noteq> None"
proof (induction xs arbitrary: c gs)
  case Nil
  then show ?case by simp
next
  case (Cons x xs)
  let ?g1 = "gs[c := gs ! c @ [x]]"
  let ?c1 = "(c + 1) mod n"
  have p: "pushTo c x gs = Some ?g1" using Cons.prems by (simp add: pushTo_def)
  from Cons.prems have "0 < n" by linarith
  then have "?c1 < n" by (rule mod_less_divisor)
  moreover have "n = length ?g1" using Cons.prems by simp
  ultimately have "assignRoundRobin n xs ?c1 ?g1 \<noteq> None" by (rule Cons.IH[rotated])
  with p show ?case by simp
qed

lemma assignRoundRobin_mset:
  "assignRoundRobin n xs c gs = Some (gs', c') \<Longrightarrow>
   length gs' = length gs \<and> mset (concat gs') = mset (concat gs) + mset xs"
proof (induction xs arbitrary: c gs)
  case Nil
  then show ?case by simp
next
  case (Cons x xs)
  from Cons.prems obtain g1 where p: "pushTo c x gs = Some g1"
    and r: "assignRoundRobin n xs ((c + 1) mod n) g1 = Some (gs', c')"
    by (auto split: option.splits)
  from pushTo_Some[OF p] have c: "c < length gs" and g1: "g1 = gs[c := gs ! c @ [x]]" by simp_all
  have "mset (concat g1) = add_mset x (mset (concat gs))"
    unfolding g1 using c by (rule mset_concat_update)
  moreover have "length g1 = length gs" unfolding g1 by simp
  ultimately show ?case using Cons.IH[OF r] by simp
qed

lemma mset_shuffledBlocks: "fair rs \<Longrightarrow> mset (shuffledBlocks rs bi bgs) = mset (concat bgs)"
  by (induction bgs arbitrary: bi) (auto simp: fair_def)

lemma blockMap_inner:
  "\<forall>x k. m x = Some k \<longrightarrow> P k \<Longrightarrow> P k0 \<Longrightarrow>
   foldl (\<lambda>m studentId. m(studentId \<mapsto> k0)) m b x = Some k \<Longrightarrow> P k"
proof (induction b arbitrary: m)
  case Nil
  then show ?case by simp
next
  case (Cons a b)
  have "\<forall>x k. (m(a \<mapsto> k0)) x = Some k \<longrightarrow> P k" using Cons.prems(1,2) by auto
  from Cons.IH[OF this Cons.prems(2)] Cons.prems(3) show ?case by simp
qed

lemma blockMap_outer:
  "\<forall>x k. m x = Some k \<longrightarrow> P k \<Longrightarrow> \<forall>p \<in> set ps. P (snd p) \<Longrightarrow>
   foldl (\<lambda>m (block, blockIndex). foldl (\<lambda>m studentId. m(studentId \<mapsto> blockIndex)) m block) m ps x
     = Some k \<Longrightarrow> P k"
proof (induction ps arbitrary: m)
  case Nil
  then show ?case by simp
next
  case (Cons p ps)
  obtain b k0 where p: "p = (b, k0)" by (cases p)
  let ?m1 = "foldl (\<lambda>m studentId. m(studentId \<mapsto> k0)) m b"
  from Cons.prems(2) p have k0: "P k0" by simp
  have "\<forall>x k. ?m1 x = Some k \<longrightarrow> P k"
    using blockMap_inner[OF Cons.prems(1) k0] by blast
  moreover have "\<forall>p \<in> set ps. P (snd p)" using Cons.prems(2) by simp
  moreover have "foldl (\<lambda>m (block, blockIndex).
       foldl (\<lambda>m studentId. m(studentId \<mapsto> blockIndex)) m block) ?m1 ps x = Some k"
    using Cons.prems(3) unfolding p by (simp del: fun_upd_apply)
  ultimately show ?case by (rule Cons.IH)
qed

lemma blockStudentMap_range:
  "blockStudentMap bks x = Some k \<Longrightarrow> k < length bks"
proof -
  have "\<forall>p \<in> set (zip bks [0..<length bks]). snd p < length bks"
    by (auto dest: set_zip_rightD)
  from blockMap_outer[of Map.empty "\<lambda>k. k < length bks", OF _ this]
  show "blockStudentMap bks x = Some k \<Longrightarrow> k < length bks"
    by (simp add: blockStudentMap_def)
qed

lemma blockGroups_fold:
  assumes m: "\<And>x k. m x = Some k \<Longrightarrow> k < length bg0"
  shows "case foldl (\<lambda>(bg, processed) student.
              case m (sid student) of
                None \<Rightarrow> (bg, processed)
              | Some blockIndex \<Rightarrow>
                  (bg[blockIndex := bg ! blockIndex @ [student]], insert (sid student) processed))
            (bg0, pr0) rem of
          (bg, pr) \<Rightarrow> length bg = length bg0
            \<and> mset (concat bg) = mset (concat bg0) + mset (filter (\<lambda>s. m (sid s) \<noteq> None) rem)
            \<and> pr = pr0 \<union> sid ` {s \<in> set rem. m (sid s) \<noteq> None}"
proof (induction rem rule: rev_induct)
  case Nil
  then show ?case by simp
next
  case (snoc s rem)
  then show ?case
    by (auto simp: mset_concat_update split: prod.splits option.splits dest: m)
qed

lemma distributeBlockStudents_spec:
  assumes rs: "fair rs"
  shows "(gs \<noteq> [] \<longrightarrow> distributeBlockStudents rs gs bks rem \<noteq> None)
   \<and> (\<forall>gs' pr. distributeBlockStudents rs gs bks rem = Some (gs', pr) \<longrightarrow>
         length gs' = length gs
         \<and> mset (concat gs') + mset (filter (\<lambda>s. sid s \<notin> pr) rem) = mset (concat gs) + mset rem)"
proof -
  let ?m = "blockStudentMap bks"
  obtain bg pr where bgp: "blockGroups ?m (length bks) rem = (bg, pr)"
    by (cases "blockGroups ?m (length bks) rem")
  have "\<And>x k. ?m x = Some k \<Longrightarrow> k < length (replicate (length bks) ([] :: student list))"
    by (simp add: blockStudentMap_range)
  from blockGroups_fold[where m = ?m and ?bg0.0 = "replicate (length bks) []" and ?pr0.0 = "{}"
      and rem = rem, OF this] bgp
  have bg: "mset (concat bg) = mset (filter (\<lambda>s. ?m (sid s) \<noteq> None) rem)"
    and pr: "pr = sid ` {s \<in> set rem. ?m (sid s) \<noteq> None}"
    by (simp_all add: blockGroups_def)
  have fin: "filter (\<lambda>s. sid s \<notin> pr) rem = filter (\<lambda>s. \<not> ?m (sid s) \<noteq> None) rem"
    unfolding pr by (rule filter_cong) auto
  have part: "mset (filter (\<lambda>s. ?m (sid s) \<noteq> None) rem) + mset (filter (\<lambda>s. sid s \<notin> pr) rem)
      = mset rem"
    unfolding fin by (simp only: mset_filter multiset_partition[symmetric])
  show ?thesis
  proof (cases "assignRoundRobin (length gs) (shuffledBlocks rs 0 bg) 0 gs")
    case None
    have "gs = []"
    proof (rule ccontr)
      assume "gs \<noteq> []"
      then have "0 < length gs" by simp
      from assignRoundRobin_total[OF refl this] None show False by blast
    qed
    with None bgp show ?thesis
      by (simp add: distributeBlockStudents_def distributeBlocks_concat)
  next
    case (Some r)
    obtain gs' c' where r: "r = (gs', c')" by (cases r)
    from assignRoundRobin_mset[OF Some[unfolded r]] have "length gs' = length gs"
      "mset (concat gs') = mset (concat gs) + mset (concat bg)"
      by (simp_all add: mset_shuffledBlocks[OF rs])
    with part bg Some r bgp show ?thesis
      by (simp add: distributeBlockStudents_def distributeBlocks_concat add.assoc)
  qed
qed

lemma blockProcess_ok:
  assumes rs: "fair rs" and nxt: "handlerOK R nextHandle"
  shows "handlerOK R (blockProcess nextHandle rs)"
  unfolding handlerOK_def
proof (intro allI)
  fix ctx :: groupingContext
  let ?gs = "ctxGroups ctx" and ?rem = "ctxRemaining ctx"
  let ?goal = "(?gs \<noteq> [] \<longrightarrow> blockProcess nextHandle rs ctx \<noteq> None)
        \<and> (\<forall>r. blockProcess nextHandle rs ctx = Some r \<longrightarrow>
              length (resGroups r) = length ?gs
              \<and> (ctxOK R ?gs ?rem \<longrightarrow> ctxOK R (resGroups r) []))"
  show ?goal
  proof (cases "findCondition ''block-distribution'' (ctxConditions ctx)")
    case None
    then show ?thesis using declined_ok[of False ctx R] by (simp add: blockProcess_def)
  next
    case (Some c)
    show ?thesis
    proof (cases "configuredBlocks c = []")
      case True
      with Some show ?thesis using declined_ok[of True ctx R] by (simp add: blockProcess_def)
    next
      case False
      note d = distributeBlockStudents_spec[OF rs, of ?gs "configuredBlocks c" ?rem]
      show ?thesis
      proof (cases "distributeBlockStudents rs ?gs (configuredBlocks c) ?rem")
        case None
        with d Some False show ?thesis by (simp add: blockProcess_def)
      next
        case dS: (Some a)
        obtain gs' pr where a: "a = (gs', pr)" by (cases a)
        let ?final = "filter (\<lambda>s. sid s \<notin> pr) ?rem"
        from d dS a have l: "length gs' = length ?gs"
          and ms: "mset (concat gs') + mset ?final = mset (concat ?gs) + mset ?rem" by auto
        have ok: "ctxOK R ?gs ?rem \<longrightarrow> ctxOK R gs' ?final"
          using ctxOK_mset[of gs' ?final ?gs ?rem R] ms by simp
        have eq: "blockProcess nextHandle rs ctx = passOn nextHandle rs BlockRest ctx gs' ?final"
          using Some False dS a by (simp add: blockProcess_def)
        from passOn_ok[OF rs nxt, of gs' BlockRest ctx ?final] l ok
        show ?thesis unfolding eq by auto
      qed
    qed
  qed
qed


lemma filter_sid_unique:
  "distinct (map sid rem) \<Longrightarrow> s \<in> set rem \<Longrightarrow> filter (\<lambda>t. sid t = sid s) rem = [s]"
proof (induction rem)
  case Nil
  then show ?case by simp
next
  case (Cons a rem)
  show ?case
  proof (cases "a = s")
    case True
    then have "sid s \<notin> sid ` set rem" using Cons.prems(1) by simp
    then have "\<forall>t \<in> set rem. sid t \<noteq> sid s" by (metis imageI)
    then have "filter (\<lambda>t. sid t = sid s) rem = []" by (simp add: filter_empty_conv)
    with True show ?thesis by simp
  next
    case False
    with Cons.prems have "s \<in> set rem" "sid a \<noteq> sid s" by auto
    with Cons show ?thesis by simp
  qed
qed

lemma findStudent_Some:
  "findStudent x rem = Some s \<Longrightarrow> s \<in> set rem \<and> sid s = x"
  by (auto simp: findStudent_def find_Some_iff)

lemma findStudent_None: "findStudent x rem = None \<longleftrightarrow> x \<notin> sid ` set rem"
  by (auto simp: findStudent_def find_None_iff)

lemma filter_processed_insert:
  assumes d: "distinct (map sid rem)" and s: "s \<in> set rem" and x: "sid s \<notin> pr"
  shows "mset (filter (\<lambda>t. sid t \<notin> pr) rem)
       = add_mset s (mset (filter (\<lambda>t. sid t \<notin> insert (sid s) pr) rem))"
proof -
  let ?P = "\<lambda>t. sid t \<notin> pr"
  have e1: "filter (\<lambda>t. sid t = sid s) (filter ?P rem) = [s]"
  proof -
    have "filter (\<lambda>t. sid t = sid s) (filter ?P rem) = filter ?P (filter (\<lambda>t. sid t = sid s) rem)"
      by (simp add: conj_commute)
    also have "\<dots> = filter ?P [s]" using d s by (simp only: filter_sid_unique)
    finally show ?thesis using x by simp
  qed
  have e2: "filter (\<lambda>t. \<not> sid t = sid s) (filter ?P rem)
      = filter (\<lambda>t. sid t \<notin> insert (sid s) pr) rem"
    by (auto intro: filter_cong)
  have "mset (filter ?P rem) = mset (filter (\<lambda>t. sid t = sid s) (filter ?P rem))
      + mset (filter (\<lambda>t. \<not> sid t = sid s) (filter ?P rem))"
    by (simp only: mset_filter multiset_partition[symmetric])
  also have "\<dots> = mset [s] + mset (filter (\<lambda>t. sid t \<notin> insert (sid s) pr) rem)"
    by (simp only: e1 e2)
  finally show ?thesis by simp
qed

lemma addToGroup_total:
  "target < length gs \<Longrightarrow> addToGroup target ids rem gs pr \<noteq> None"
proof (induction ids arbitrary: gs pr)
  case Nil
  then show ?case by simp
next
  case (Cons x ids)
  show ?case
  proof (cases "findStudent x rem")
    case None
    with Cons show ?thesis by simp
  next
    case (Some s)
    let ?g1 = "gs[target := gs ! target @ [s]]"
    have "target < length ?g1" using Cons.prems by simp
    from Cons.IH[OF this] Some Cons.prems show ?thesis by (simp add: pushTo_def)
  qed
qed

lemma addToGroup_length:
  "addToGroup target ids rem gs pr = Some (gs', pr') \<Longrightarrow> length gs' = length gs"
proof (induction ids arbitrary: gs pr)
  case Nil
  then show ?case by simp
next
  case (Cons x ids)
  show ?case
  proof (cases "findStudent x rem")
    case None
    with Cons show ?thesis by simp
  next
    case (Some s)
    with Cons.prems obtain g1 where p: "pushTo target s gs = Some g1"
      and r: "addToGroup target ids rem g1 (insert x pr) = Some (gs', pr')"
      by (auto split: option.splits)
    from pushTo_Some[OF p] Cons.IH[OF r] show ?thesis by simp
  qed
qed

lemma addToGroup_mset:
  assumes d: "distinct (map sid rem)"
  shows "addToGroup target ids rem gs pr = Some (gs', pr') \<Longrightarrow> distinct ids \<Longrightarrow>
     set ids \<inter> pr = {} \<Longrightarrow>
     mset (concat gs') + mset (filter (\<lambda>t. sid t \<notin> pr') rem)
       = mset (concat gs) + mset (filter (\<lambda>t. sid t \<notin> pr) rem)"
proof (induction ids arbitrary: gs pr)
  case Nil
  then show ?case by simp
next
  case (Cons x ids)
  show ?case
  proof (cases "findStudent x rem")
    case None
    with Cons.prems have r: "addToGroup target ids rem gs pr = Some (gs', pr')" by simp
    from Cons.prems have "distinct ids" "set ids \<inter> pr = {}" by auto
    from Cons.IH[OF r this] show ?thesis .
  next
    case (Some s)
    with Cons.prems obtain g1 where p: "pushTo target s gs = Some g1"
      and r: "addToGroup target ids rem g1 (insert x pr) = Some (gs', pr')"
      by (auto split: option.splits)
    from findStudent_Some[OF Some] have s: "s \<in> set rem" "sid s = x" by simp_all
    from pushTo_Some[OF p] have t: "target < length gs" and g1: "g1 = gs[target := gs ! target @ [s]]"
      by simp_all
    from Cons.prems have "distinct ids" "set ids \<inter> insert x pr = {}" by auto
    from Cons.IH[OF r this]
    have "mset (concat gs') + mset (filter (\<lambda>t. sid t \<notin> pr') rem)
       = mset (concat g1) + mset (filter (\<lambda>t. sid t \<notin> insert x pr) rem)" .
    also have "mset (concat g1) = add_mset s (mset (concat gs))"
      unfolding g1 using t by (rule mset_concat_update)
    also have "add_mset s (mset (concat gs)) + mset (filter (\<lambda>t. sid t \<notin> insert x pr) rem)
       = mset (concat gs) + add_mset s (mset (filter (\<lambda>t. sid t \<notin> insert (sid s) pr) rem))"
      using s by simp
    also have "add_mset s (mset (filter (\<lambda>t. sid t \<notin> insert (sid s) pr) rem))
       = mset (filter (\<lambda>t. sid t \<notin> pr) rem)"
      using filter_processed_insert[OF d s(1), of pr] s(2) Cons.prems(3) by simp
    finally show ?thesis .
  qed
qed

lemma findAvailableGroup_Some: "findAvailableGroup gs k = Some t \<Longrightarrow> t < length gs"
  by (auto simp: findAvailableGroup_def Let_def split: if_splits dest!: reduceMin_mem)

lemma findAvailableGroup_None: "findAvailableGroup gs k = None \<Longrightarrow> gs = []"
  by (auto simp: findAvailableGroup_def Let_def reduceMin_None split: if_splits)

lemma sameGroupLoop_total:
  "gs \<noteq> [] \<Longrightarrow> sameGroupLoop pairs rem gs pr \<noteq> None"
proof (induction pairs arbitrary: gs pr)
  case Nil
  then show ?case by simp
next
  case (Cons pair pairs)
  let ?av = "filter (\<lambda>studentId. studentId \<in> sid ` set rem \<and> studentId \<notin> pr) pair"
  show ?case
  proof (cases "?av = []")
    case True
    with Cons show ?thesis by simp
  next
    case False
    obtain t where t: "findAvailableGroup gs (length ?av) = Some t"
      using findAvailableGroup_None[of gs "length ?av"] Cons.prems by (cases "findAvailableGroup gs (length ?av)") auto
    from findAvailableGroup_Some[OF t] have tl: "t < length gs" .
    obtain g1 p1 where a: "addToGroup t ?av rem gs pr = Some (g1, p1)"
      using addToGroup_total[OF tl, of ?av rem pr] by (cases "addToGroup t ?av rem gs pr") auto
    from addToGroup_length[OF a] Cons.prems have "g1 \<noteq> []" by auto
    from Cons.IH[OF this, of p1] False t a show ?thesis by (simp add: Let_def)
  qed
qed

lemma sameGroupLoop_length:
  "sameGroupLoop pairs rem gs pr = Some (gs', pr') \<Longrightarrow> length gs' = length gs"
proof (induction pairs arbitrary: gs pr)
  case Nil
  then show ?case by simp
next
  case (Cons pair pairs)
  let ?av = "filter (\<lambda>studentId. studentId \<in> sid ` set rem \<and> studentId \<notin> pr) pair"
  show ?case
  proof (cases "?av = []")
    case True
    with Cons show ?thesis by simp
  next
    case False
    with Cons.prems obtain t g1 p1 where t: "findAvailableGroup gs (length ?av) = Some t"
      and a: "addToGroup t ?av rem gs pr = Some (g1, p1)"
      and r: "sameGroupLoop pairs rem g1 p1 = Some (gs', pr')"
      by (auto simp: Let_def split: option.splits)
    from Cons.IH[OF r] addToGroup_length[OF a] show ?thesis by simp
  qed
qed

lemma sameGroupLoop_mset:
  assumes d: "distinct (map sid rem)"
  shows "sameGroupLoop pairs rem gs pr = Some (gs', pr') \<Longrightarrow> \<forall>p \<in> set pairs. distinct p \<Longrightarrow>
     mset (concat gs') + mset (filter (\<lambda>t. sid t \<notin> pr') rem)
       = mset (concat gs) + mset (filter (\<lambda>t. sid t \<notin> pr) rem)"
proof (induction pairs arbitrary: gs pr)
  case Nil
  then show ?case by simp
next
  case (Cons pair pairs)
  let ?av = "filter (\<lambda>studentId. studentId \<in> sid ` set rem \<and> studentId \<notin> pr) pair"
  from Cons.prems(2) have dp: "\<forall>p \<in> set pairs. distinct p" and dpair: "distinct pair" by simp_all
  show ?case
  proof (cases "?av = []")
    case True
    with Cons.prems have "sameGroupLoop pairs rem gs pr = Some (gs', pr')" by simp
    from Cons.IH[OF this dp] show ?thesis .
  next
    case False
    with Cons.prems obtain t g1 p1 where t: "findAvailableGroup gs (length ?av) = Some t"
      and a: "addToGroup t ?av rem gs pr = Some (g1, p1)"
      and r: "sameGroupLoop pairs rem g1 p1 = Some (gs', pr')"
      by (auto simp: Let_def split: option.splits)
    have "distinct ?av" using dpair by simp
    moreover have "set ?av \<inter> pr = {}" by auto
    ultimately have "mset (concat g1) + mset (filter (\<lambda>t. sid t \<notin> p1) rem)
       = mset (concat gs) + mset (filter (\<lambda>t. sid t \<notin> pr) rem)"
      by (rule addToGroup_mset[OF d a])
    with Cons.IH[OF r dp] show ?thesis by simp
  qed
qed

lemma scanNumbers_distinct:
  "distinct numbers \<Longrightarrow> distinct (fst (scanNumbers parts numbers duplicates))"
  by (induction parts numbers duplicates rule: scanNumbers.induct) (auto split: option.splits)

lemma parseStudentNumbers_distinct: "parseStudentNumbers inp = Inr c \<Longrightarrow> distinct c"
proof -
  assume a: "parseStudentNumbers inp = Inr c"
  obtain ns ds where sc: "scanNumbers (map trim (splitChar (CHR '','') inp)) [] [] = (ns, ds)"
    by (cases "scanNumbers (map trim (splitChar (CHR '','') inp)) [] []")
  from scanNumbers_distinct[of "[]" "map trim (splitChar (CHR '','') inp)" "[]"] sc
  have "distinct ns" by simp
  with a sc show "distinct c"
    by (auto simp: parseStudentNumbers_def Let_def distinct_sortBy split: if_splits)
qed

lemma parseGroupList_distinct: "\<forall>c \<in> set (parseGroupList inp). distinct c"
  by (auto simp: parseGroupList_def Let_def split: sum.splits if_splits
      dest: parseStudentNumbers_distinct[OF sym])

lemma sameProcess_ok:
  assumes rs: "fair rs" and nxt: "handlerOK R nextHandle"
  shows "handlerOK R (sameProcess nextHandle rs)"
  unfolding handlerOK_def
proof (intro allI)
  fix ctx :: groupingContext
  let ?gs = "ctxGroups ctx" and ?rem = "ctxRemaining ctx"
  let ?goal = "(?gs \<noteq> [] \<longrightarrow> sameProcess nextHandle rs ctx \<noteq> None)
        \<and> (\<forall>r. sameProcess nextHandle rs ctx = Some r \<longrightarrow>
              length (resGroups r) = length ?gs
              \<and> (ctxOK R ?gs ?rem \<longrightarrow> ctxOK R (resGroups r) []))"
  show ?goal
  proof (cases "findCondition ''same-group'' (ctxConditions ctx)")
    case None
    then show ?thesis using declined_ok[of False ctx R] by (simp add: sameProcess_def)
  next
    case (Some c)
    let ?pairs = "parseSameGroupInput (input c)"
    show ?thesis
    proof (cases "?pairs = []")
      case True
      with Some show ?thesis using declined_ok[of True ctx R] by (simp add: sameProcess_def)
    next
      case False
      show ?thesis
      proof (cases "sameGroupLoop ?pairs ?rem ?gs {}")
        case None
        with sameGroupLoop_total[of ?gs ?pairs ?rem "{}"] have "?gs = []" by auto
        with None Some False show ?thesis by (simp add: sameProcess_def)
      next
        case dS: (Some a)
        obtain gs' pr where a: "a = (gs', pr)" by (cases a)
        let ?final = "filter (\<lambda>s. sid s \<notin> pr) ?rem"
        from sameGroupLoop_length[OF dS[unfolded a]] have l: "length gs' = length ?gs" .
        have ok: "ctxOK R ?gs ?rem \<longrightarrow> ctxOK R gs' ?final"
        proof
          assume c: "ctxOK R ?gs ?rem"
          then have d: "distinct (map sid ?rem)" by (simp add: ctxOK_def)
          have dp: "\<forall>p \<in> set ?pairs. distinct p"
            by (simp add: parseSameGroupInput_def parseGroupList_distinct)
          from sameGroupLoop_mset[OF d dS[unfolded a] dp]
          have "mset (concat gs') + mset ?final = mset (concat ?gs) + mset ?rem" by simp
          then have "mset (concat gs') + mset ?final \<subseteq># mset (concat ?gs) + mset ?rem" by simp
          from ctxOK_mset[OF this c] show "ctxOK R gs' ?final" .
        qed
        have eq: "sameProcess nextHandle rs ctx = passOn nextHandle rs SameRest ctx gs' ?final"
          using Some False dS a by (simp add: sameProcess_def)
        from passOn_ok[OF rs nxt, of gs' SameRest ctx ?final] l ok
        show ?thesis unfolding eq by auto
      qed
    qed
  qed
qed


lemma sgm_inner:
  "map_of (foldl (\<lambda>m student. if sid student \<in> set I
                                 then AList.update (sid student) gi m else m) m g) x
     = (if x \<in> set I \<and> x \<in> sid ` set g then Some gi else map_of m x)"
proof (induction g arbitrary: m)
  case Nil
  then show ?case by simp
next
  case (Cons s g)
  show ?case by (simp add: Cons.IH update_conv') auto
qed

lemma sgm_outer_dom:
  "map_of (foldl (\<lambda>m (g, groupIndex).
              foldl (\<lambda>m student. if sid student \<in> set I
                                  then AList.update (sid student) groupIndex m else m) m g) m ps) x \<noteq> None
   \<longleftrightarrow> map_of m x \<noteq> None \<or> (x \<in> set I \<and> (\<exists>p \<in> set ps. x \<in> sid ` set (fst p)))"
proof (induction ps arbitrary: m)
  case Nil
  then show ?case by simp
next
  case (Cons p ps)
  obtain g gi where p: "p = (g, gi)" by (cases p)
  let ?m1 = "foldl (\<lambda>m student. if sid student \<in> set I
                                  then AList.update (sid student) gi m else m) m g"
  let ?outer = "foldl (\<lambda>m (g, groupIndex).
              foldl (\<lambda>m student. if sid student \<in> set I
                                  then AList.update (sid student) groupIndex m else m) m g)"
  have step: "?outer m (p # ps) = ?outer ?m1 ps" unfolding p by simp
  have m1: "map_of ?m1 x \<noteq> None \<longleftrightarrow> map_of m x \<noteq> None \<or> (x \<in> set I \<and> x \<in> sid ` set g)"
    unfolding sgm_inner by auto
  have "map_of (?outer ?m1 ps) x \<noteq> None
     \<longleftrightarrow> map_of ?m1 x \<noteq> None \<or> (x \<in> set I \<and> (\<exists>p \<in> set ps. x \<in> sid ` set (fst p)))"
    by (rule Cons.IH)
  then show ?case unfolding step m1 p by auto
qed

lemma sgm_outer_range:
  "map_of (foldl (\<lambda>m (g, groupIndex).
              foldl (\<lambda>m student. if sid student \<in> set I
                                  then AList.update (sid student) groupIndex m else m) m g) m ps) x = Some k
   \<Longrightarrow> map_of m x = Some k \<or> (\<exists>p \<in> set ps. snd p = k \<and> x \<in> sid ` set (fst p))"
proof (induction ps arbitrary: m)
  case Nil
  then show ?case by simp
next
  case (Cons p ps)
  obtain g gi where p: "p = (g, gi)" by (cases p)
  from Cons.prems have "map_of (foldl (\<lambda>m (g, groupIndex).
              foldl (\<lambda>m student. if sid student \<in> set I
                                  then AList.update (sid student) groupIndex m else m) m g)
          (foldl (\<lambda>m student. if sid student \<in> set I
                                  then AList.update (sid student) gi m else m) m g) ps) x = Some k"
    unfolding p by simp
  from Cons.IH[OF this] show ?case unfolding p
    by (auto simp: sgm_inner split: if_splits)
qed

lemma in_zip_upt: "p \<in> set (zip gs [0..<length gs]) \<longleftrightarrow> snd p < length gs \<and> fst p = gs ! snd p"
  by (cases p) (auto simp: set_zip)

lemma studentGroupMap_dom:
  "map_of (studentGroupMap gs I) x \<noteq> None \<longleftrightarrow> x \<in> set I \<and> x \<in> sid ` set (concat gs)"
proof -
  have "(\<exists>p \<in> set (zip gs [0..<length gs]). x \<in> sid ` set (fst p)) \<longleftrightarrow> x \<in> sid ` set (concat gs)"
  proof
    assume "\<exists>p \<in> set (zip gs [0..<length gs]). x \<in> sid ` set (fst p)"
    then obtain p where "snd p < length gs" "fst p = gs ! snd p" "x \<in> sid ` set (fst p)"
      by (auto simp: in_zip_upt)
    then show "x \<in> sid ` set (concat gs)" by (metis (no_types, lifting) UN_I image_iff nth_mem set_concat)
  next
    assume "x \<in> sid ` set (concat gs)"
    then obtain s g where s: "sid s = x" "s \<in> set g" "g \<in> set gs" by auto
    then obtain j where "j < length gs" "gs ! j = g" by (metis in_set_conv_nth)
    then have "(g, j) \<in> set (zip gs [0..<length gs])" by (simp add: in_zip_upt)
    with s show "\<exists>p \<in> set (zip gs [0..<length gs]). x \<in> sid ` set (fst p)" by force
  qed
  then show ?thesis unfolding studentGroupMap_def sgm_outer_dom by simp
qed

lemma studentGroupMap_range:
  "map_of (studentGroupMap gs I) x = Some k \<Longrightarrow> k < length gs \<and> x \<in> sid ` set (gs ! k)"
  unfolding studentGroupMap_def
  by (drule sgm_outer_range) (auto simp: in_zip_upt)

lemma evict_spec:
  "c < length gs \<Longrightarrow>
   \<exists>ev. evict c E gs rem = (gs[c := filter (\<lambda>s. sid s \<notin> set E) (gs ! c)], rem @ ev)
      \<and> set ev \<subseteq> set (gs ! c) \<and> sid ` set ev \<subseteq> set E"
proof (induction E arbitrary: gs rem)
  case Nil
  then show ?case by simp
next
  case (Cons x E)
  show ?case
  proof (cases "findStudent x (gs ! c)")
    case None
    then have nx: "\<forall>s \<in> set (gs ! c). sid s \<noteq> x" by (auto simp: findStudent_None)
    then have f: "filter (\<lambda>s. sid s \<notin> set (x # E)) (gs ! c) = filter (\<lambda>s. sid s \<notin> set E) (gs ! c)"
      by (auto intro: filter_cong)
    from Cons.IH[OF Cons.prems, of rem] obtain ev where
      "evict c E gs rem = (gs[c := filter (\<lambda>s. sid s \<notin> set E) (gs ! c)], rem @ ev)"
      "set ev \<subseteq> set (gs ! c)" "sid ` set ev \<subseteq> set E" by blast
    with None f show ?thesis by auto
  next
    case (Some obj)
    let ?g1 = "gs[c := filter (\<lambda>s. sid s \<noteq> x) (gs ! c)]"
    have c1: "c < length ?g1" using Cons.prems by simp
    from Cons.IH[OF c1, of "rem @ [obj]"] obtain ev where ev:
      "evict c E ?g1 (rem @ [obj]) = (?g1[c := filter (\<lambda>s. sid s \<notin> set E) (?g1 ! c)], (rem @ [obj]) @ ev)"
      "set ev \<subseteq> set (?g1 ! c)" "sid ` set ev \<subseteq> set E" by blast
    have g: "?g1[c := filter (\<lambda>s. sid s \<notin> set E) (?g1 ! c)]
        = gs[c := filter (\<lambda>s. sid s \<notin> set (x # E)) (gs ! c)]"
      using Cons.prems by (auto intro: filter_cong)
    from findStudent_Some[OF Some] have o: "obj \<in> set (gs ! c)" "sid obj = x" by simp_all
    have "evict c (x # E) gs rem
        = (gs[c := filter (\<lambda>s. sid s \<notin> set (x # E)) (gs ! c)], rem @ (obj # ev))"
      using Some ev(1) g by simp
    moreover have "set (obj # ev) \<subseteq> set (gs ! c)" using o ev(2) Cons.prems by auto
    moreover have "sid ` set (obj # ev) \<subseteq> set (x # E)" using o ev(3) by auto
    ultimately show ?thesis by blast
  qed
qed

lemma mset_concat_split:
  "c < length gs \<Longrightarrow> mset (concat (gs[c := g'])) = mset g' + mset (concat (gs[c := []]))"
  by (induction gs arbitrary: c) (auto split: nat.splits)

lemma redistribute_spec:
  "distinct E \<Longrightarrow>
   length (redistributeStudents gs E rem c) = length gs
   \<and> (\<exists>added. mset (concat (redistributeStudents gs E rem c)) = mset (concat gs) + mset added
         \<and> set added \<subseteq> set rem \<and> distinct (map sid added) \<and> sid ` set added \<subseteq> set E)"
proof (induction E arbitrary: gs)
  case Nil
  show ?case by (auto intro: exI[of _ "[]"])
next
  case (Cons x E)
  from Cons.prems have dE: "distinct E" and xE: "x \<notin> set E" by simp_all
  let ?idx = "sortBy (bySize gs) (filter (\<lambda>i. i \<noteq> c) [0..<length gs])"
  show ?case
  proof (cases "findStudent x rem")
    case None
    from Cons.IH[OF dE, of gs] None show ?thesis by auto
  next
    case (Some s)
    from findStudent_Some[OF Some] have s: "s \<in> set rem" "sid s = x" by simp_all
    show ?thesis
    proof (cases ?idx)
      case Nil
      from Cons.IH[OF dE, of gs] Some Nil show ?thesis by auto
    next
      case (Cons t others)
      then have "t \<in> set (filter (\<lambda>i. i \<noteq> c) [0..<length gs])"
        by (metis list.set_intros(1) set_sortBy)
      then have t: "t < length gs" by simp
      let ?g1 = "gs[t := gs ! t @ [s]]"
      from Cons.IH[OF dE, of ?g1] obtain added where a:
        "length (redistributeStudents ?g1 E rem c) = length ?g1"
        "mset (concat (redistributeStudents ?g1 E rem c)) = mset (concat ?g1) + mset added"
        "set added \<subseteq> set rem" "distinct (map sid added)" "sid ` set added \<subseteq> set E" by blast
      have r: "redistributeStudents gs (x # E) rem c = redistributeStudents ?g1 E rem c"
        using Some Cons by simp
      have "mset (concat (redistributeStudents gs (x # E) rem c))
          = mset (concat gs) + mset (s # added)"
        unfolding r a(2) using t by (simp add: mset_concat_update)
      moreover have "set (s # added) \<subseteq> set rem" using s a(3) by simp
      moreover have "distinct (map sid (s # added))" using s a(4,5) xE by auto
      moreover have "sid ` set (s # added) \<subseteq> set (x # E)" using s a(5) by auto
      moreover have "length (redistributeStudents gs (x # E) rem c) = length gs"
        unfolding r a(1) by simp
      ultimately show ?thesis by blast
    qed
  qed
qed

lemma assignUnplaced_total:
  "gs \<noteq> [] \<Longrightarrow> assignUnplaced m rem I used gs pr \<noteq> None"
proof (induction I arbitrary: used gs pr)
  case Nil
  then show ?case by simp
next
  case (Cons x I)
  show ?case
  proof (cases "map_of m x \<noteq> None")
    case True
    with Cons show ?thesis by simp
  next
    case False
    show ?thesis
    proof (cases "findStudent x rem")
      case None
      with False Cons show ?thesis by simp
    next
      case (Some s)
      show ?thesis
      proof (cases "sortBy (bySize gs) (filter (\<lambda>i. i \<notin> used) [0..<length gs])")
        case Nil
        obtain t where t: "reduceMin gs [0..<length gs] = Some t"
          using Cons.prems reduceMin_None[of gs "[0..<length gs]"]
          by (cases "reduceMin gs [0..<length gs]") auto
        have "gs[t := gs ! t @ [s]] \<noteq> []" using Cons.prems by simp
        from Cons.IH[OF this] False Some Nil t show ?thesis by simp
      next
        case (Cons t others)
        have "gs[t := gs ! t @ [s]] \<noteq> []" using Cons.prems by simp
        from Cons.IH[OF this] False Some Cons show ?thesis by simp
      qed
    qed
  qed
qed

lemma assignUnplaced_spec:
  "assignUnplaced m rem I used gs pr = Some (gs', pr') \<Longrightarrow> distinct I \<Longrightarrow>
   length gs' = length gs \<and> pr \<subseteq> pr'
   \<and> (\<exists>added. mset (concat gs') = mset (concat gs) + mset added
         \<and> set added \<subseteq> set rem \<and> distinct (map sid added)
         \<and> sid ` set added \<subseteq> {x \<in> set I. map_of m x = None} \<and> sid ` set added \<subseteq> pr')"
proof (induction I arbitrary: used gs pr)
  case Nil
  then show ?case by (auto intro: exI[of _ "[]"])
next
  case (Cons x I)
  from Cons.prems have dI: "distinct I" and xI: "x \<notin> set I" by simp_all
  show ?case
  proof (cases "map_of m x \<noteq> None")
    case True
    with Cons.prems have "assignUnplaced m rem I used gs (insert x pr) = Some (gs', pr')" by simp
    from Cons.IH[OF this dI] obtain added where a: "length gs' = length gs" "insert x pr \<subseteq> pr'"
        "mset (concat gs') = mset (concat gs) + mset added" "set added \<subseteq> set rem"
        "distinct (map sid added)" "sid ` set added \<subseteq> {x \<in> set I. map_of m x = None}"
        "sid ` set added \<subseteq> pr'" by blast
    have "sid ` set added \<subseteq> {y \<in> set (x # I). map_of m y = None}" using a(6) by auto
    with a show ?thesis by (intro conjI exI[of _ added]) auto
  next
    case False
    show ?thesis
    proof (cases "findStudent x rem")
      case None
      with False Cons.prems have "assignUnplaced m rem I used gs pr = Some (gs', pr')" by simp
      from Cons.IH[OF this dI] obtain added where a: "length gs' = length gs" "pr \<subseteq> pr'"
        "mset (concat gs') = mset (concat gs) + mset added" "set added \<subseteq> set rem"
        "distinct (map sid added)" "sid ` set added \<subseteq> {x \<in> set I. map_of m x = None}"
        "sid ` set added \<subseteq> pr'" by blast
      have "sid ` set added \<subseteq> {y \<in> set (x # I). map_of m y = None}" using a(6) by auto
      with a show ?thesis by (intro conjI exI[of _ added]) auto
    next
      case (Some s)
      from findStudent_Some[OF Some] have s: "s \<in> set rem" "sid s = x" by simp_all
      have "\<exists>t used1. t < length gs
          \<and> assignUnplaced m rem I used1 (gs[t := gs ! t @ [s]]) (insert x pr) = Some (gs', pr')"
      proof (cases "sortBy (bySize gs) (filter (\<lambda>i. i \<notin> used) [0..<length gs])")
        case Nil
        with False Some Cons.prems obtain t where t: "reduceMin gs [0..<length gs] = Some t"
          and r: "assignUnplaced m rem I used (gs[t := gs ! t @ [s]]) (insert x pr) = Some (gs', pr')"
          by (auto split: option.splits)
        from reduceMin_mem[OF t] r show ?thesis by auto
      next
        case (Cons t others)
        then have "t \<in> set (filter (\<lambda>i. i \<notin> used) [0..<length gs])"
          by (metis list.set_intros(1) set_sortBy)
        then have "t < length gs" by simp
        moreover from False Some Cons Cons.prems
        have "assignUnplaced m rem I (insert t used) (gs[t := gs ! t @ [s]]) (insert x pr) = Some (gs', pr')"
          by simp
        ultimately show ?thesis by blast
      qed
      then obtain t used1 where t: "t < length gs"
        and r: "assignUnplaced m rem I used1 (gs[t := gs ! t @ [s]]) (insert x pr) = Some (gs', pr')"
        by blast
      let ?g1 = "gs[t := gs ! t @ [s]]"
      from Cons.IH[OF r dI] obtain added where a: "length gs' = length ?g1" "insert x pr \<subseteq> pr'"
        "mset (concat gs') = mset (concat ?g1) + mset added" "set added \<subseteq> set rem"
        "distinct (map sid added)" "sid ` set added \<subseteq> {x \<in> set I. map_of m x = None}"
        "sid ` set added \<subseteq> pr'" by blast
      have "mset (concat gs') = mset (concat gs) + mset (s # added)"
        unfolding a(3) using t by (simp add: mset_concat_update)
      moreover have "set (s # added) \<subseteq> set rem" using s a(4) by simp
      moreover have "distinct (map sid (s # added))" using s a(5,6) xI by auto
      moreover have "sid ` set (s # added) \<subseteq> {y \<in> set (x # I). map_of m y = None}"
        using s a(6) False by auto
      moreover have "sid ` set (s # added) \<subseteq> pr'" using s a(2,7) by auto
      ultimately show ?thesis using a(1,2) by (intro conjI exI[of _ "s # added"]) auto
    qed
  qed
qed


lemma distinct_map_mset_eq: "mset xs = mset ys \<Longrightarrow> distinct (map f xs) = distinct (map f ys)"
proof -
  assume "mset xs = mset ys"
  then have "mset (map f xs) = mset (map f ys)" by simp
  then show ?thesis by (rule mset_eq_imp_distinct_iff)
qed

lemma set_mset_eq: "mset xs = mset ys \<Longrightarrow> set xs = set ys"
  by (rule mset_eq_setD)

lemma conflict_spec:
  assumes dE: "distinct E"
    and inC: "\<forall>x \<in> set E. map_of (studentGroupMap gs I) x = Some c"
    and ev: "evict c E gs rem = (gsE, remE)"
  shows "length (redistributeStudents gsE E remE c) = length gs
     \<and> (\<exists>ev. remE = rem @ ev \<and> sid ` set ev \<subseteq> set E \<and> set ev \<subseteq> set (concat gs))
     \<and> (distinct (map sid (concat gs)) \<longrightarrow>
          distinct (map sid (concat (redistributeStudents gsE E remE c)))
          \<and> sid ` set (concat (redistributeStudents gsE E remE c)) \<subseteq> sid ` set (concat gs)
          \<and> set (concat (redistributeStudents gsE E remE c)) \<subseteq> set (concat gs) \<union> set rem
          \<and> (\<forall>s \<in> set (concat (redistributeStudents gsE E remE c)).
                s \<in> set (concat gs) \<or> sid s \<in> set E))"
proof (cases "E = []")
  case True
  with ev show ?thesis by simp
next
  case False
  then obtain x0 where "x0 \<in> set E" by (cases E) auto
  with inC have "map_of (studentGroupMap gs I) x0 = Some c" by simp
  then have c: "c < length gs" by (simp add: studentGroupMap_range)
  let ?P = "\<lambda>s. sid s \<notin> set E"
  let ?rest = "concat (gs[c := []])"
  let ?gsR = "redistributeStudents gsE E remE c"
  from evict_spec[OF c, of E rem] ev obtain evs where
    gsE: "gsE = gs[c := filter ?P (gs ! c)]" and remE: "remE = rem @ evs"
    and evs: "set evs \<subseteq> set (gs ! c)" "sid ` set evs \<subseteq> set E" by auto
  have mE: "mset (concat gsE) = mset (filter ?P (gs ! c)) + mset ?rest"
    unfolding gsE using c by (rule mset_concat_split)
  have mG: "mset (concat gs) = mset (gs ! c) + mset ?rest"
    using mset_concat_split[OF c, of "gs ! c"] by simp
  have gc: "set (gs ! c) \<subseteq> set (concat gs)" using c by (auto intro: nth_mem)
  from redistribute_spec[OF dE, of gsE remE c] obtain added where
    lR: "length ?gsR = length gsE"
    and mR: "mset (concat ?gsR) = mset (concat gsE) + mset added"
    and ad: "set added \<subseteq> set remE" "distinct (map sid added)" "sid ` set added \<subseteq> set E"
    by blast
  have len: "length ?gsR = length gs" using lR gsE by simp
  have rem': "\<exists>ev. remE = rem @ ev \<and> sid ` set ev \<subseteq> set E \<and> set ev \<subseteq> set (concat gs)"
    using remE evs gc by blast
  have main: "distinct (map sid (concat ?gsR))
          \<and> sid ` set (concat ?gsR) \<subseteq> sid ` set (concat gs)
          \<and> set (concat ?gsR) \<subseteq> set (concat gs) \<union> set rem
          \<and> (\<forall>s \<in> set (concat ?gsR). s \<in> set (concat gs) \<or> sid s \<in> set E)"
    if dG: "distinct (map sid (concat gs))"
  proof -
    have dsplit: "distinct (map sid (gs ! c @ ?rest))"
      using dG distinct_map_mset_eq[of "concat gs" "gs ! c @ ?rest" sid] mG by simp
    have setE: "set (concat gsE) = set (filter ?P (gs ! c)) \<union> set ?rest"
      using set_mset_eq[of "concat gsE" "filter ?P (gs ! c) @ ?rest"] mE by simp
    have setG: "set (concat gs) = set (gs ! c) \<union> set ?rest"
      using set_mset_eq[of "concat gs" "gs ! c @ ?rest"] mG by simp
    have subE: "set (concat gsE) \<subseteq> set (concat gs)" unfolding setE setG by auto
    have dE': "distinct (map sid (concat gsE))"
    proof -
      have "distinct (map sid (filter ?P (gs ! c) @ ?rest))"
        using dsplit by (auto simp: distinct_map_filter)
      then show ?thesis
        using distinct_map_mset_eq[of "concat gsE" "filter ?P (gs ! c) @ ?rest" sid] mE by simp
    qed
    have noE: "sid ` set (concat gsE) \<inter> set E = {}"
    proof (rule ccontr)
      assume "sid ` set (concat gsE) \<inter> set E \<noteq> {}"
      then obtain s where s: "s \<in> set (concat gsE)" "sid s \<in> set E" by auto
      then have sr: "s \<in> set ?rest" unfolding setE by auto
      from inC s(2) have "map_of (studentGroupMap gs I) (sid s) = Some c" by simp
      then have "sid s \<in> sid ` set (gs ! c)" by (simp add: studentGroupMap_range)
      with sr dsplit show False by auto
    qed
    have Edom: "set E \<subseteq> sid ` set (concat gs)"
    proof
      fix x assume "x \<in> set E"
      with inC have "map_of (studentGroupMap gs I) x \<noteq> None" by simp
      then show "x \<in> sid ` set (concat gs)" unfolding studentGroupMap_dom by (rule conjunct2)
    qed
    have setR: "set (concat ?gsR) = set (concat gsE) \<union> set added"
      using set_mset_eq[of "concat ?gsR" "concat gsE @ added"] mR by simp
    have "distinct (map sid (concat gsE @ added))"
      using dE' ad(2,3) noE by auto
    then have d: "distinct (map sid (concat ?gsR))"
      using distinct_map_mset_eq[of "concat ?gsR" "concat gsE @ added" sid] mR by simp
    have i: "sid ` set (concat ?gsR) \<subseteq> sid ` set (concat gs)"
      unfolding setR using subE ad(3) Edom by blast
    have st: "set (concat ?gsR) \<subseteq> set (concat gs) \<union> set rem"
      unfolding setR using subE ad(1) evs(1) gc unfolding remE set_append by blast
    have k: "\<forall>s \<in> set (concat ?gsR). s \<in> set (concat gs) \<or> sid s \<in> set E"
      unfolding setR using subE ad(3) by blast
    from d i st k show ?thesis by blast
  qed
  from len rem' main show ?thesis by blast
qed

definition resolveConflict ::
  "groups \<Rightarrow> int list \<Rightarrow> student list \<Rightarrow> int set \<Rightarrow> groups \<times> student list \<times> int set" where
  "resolveConflict gs studentIds remainingStudents processed =
     (let m = studentGroupMap gs studentIds;
          groupsWithStudents = uniqNat [] (map snd m)
      in if length groupsWithStudents > 1
             then (gs, remainingStudents,
                   processed \<union> {studentId \<in> set studentIds. map_of m studentId \<noteq> None})
             else if length groupsWithStudents = 1
             then (let conflictGroupIndex = hd groupsWithStudents;
                       studentsInConflictGroup =
                         filter (\<lambda>i. map_of m i = Some conflictGroupIndex) studentIds;
                       (gsE, remE) = evict conflictGroupIndex (tl studentsInConflictGroup) gs
                                       remainingStudents;
                       gsR = redistributeStudents gsE (tl studentsInConflictGroup) remE
                               conflictGroupIndex
                   in (gsR, remE, processed \<union> set studentIds))
             else (gs, remainingStudents, processed))"

lemma assignToDifferentGroups_alt:
  "assignToDifferentGroups gs I rem pr =
     (case resolveConflict gs I rem pr of
        (gs1, rem1, pr1) \<Rightarrow>
          (case assignUnplaced (studentGroupMap gs I) rem1 I (snd ` set (studentGroupMap gs I)) gs1 pr1 of
             None \<Rightarrow> None
           | Some (gs2, pr2) \<Rightarrow> Some (gs2, rem1, pr2)))"
  by (simp add: assignToDifferentGroups_def resolveConflict_def Let_def)

lemma resolveConflict_spec:
  assumes r: "resolveConflict gs I rem pr = (gs1, rem1, pr1)" and dI: "distinct I"
  shows "length gs1 = length gs \<and> pr \<subseteq> pr1
     \<and> (\<exists>ev. rem1 = rem @ ev \<and> sid ` set ev \<subseteq> pr1 \<and> set ev \<subseteq> set (concat gs))
     \<and> (distinct (map sid (concat gs)) \<longrightarrow>
          distinct (map sid (concat gs1))
          \<and> sid ` set (concat gs1) \<subseteq> sid ` set (concat gs)
          \<and> set (concat gs1) \<subseteq> set (concat gs) \<union> set rem
          \<and> (\<forall>s \<in> set (concat gs1). s \<in> set (concat gs) \<or> sid s \<in> pr1))"
proof -
  let ?m = "studentGroupMap gs I"
  let ?gws = "uniqNat [] (map snd ?m)"
  consider (many) "length ?gws > 1" | (one) "length ?gws = 1" | (none) "length ?gws = 0"
    by linarith
  then show ?thesis
  proof cases
    case many
    with r have "gs1 = gs" "rem1 = rem" "pr \<subseteq> pr1"
      by (auto simp: resolveConflict_def Let_def)
    then show ?thesis by auto
  next
    case none
    with r have "gs1 = gs" "rem1 = rem" "pr = pr1"
      by (auto simp: resolveConflict_def Let_def)
    then show ?thesis by auto
  next
    case one
    let ?c = "hd ?gws"
    let ?E = "tl (filter (\<lambda>i. map_of ?m i = Some ?c) I)"
    obtain gsE remE where ev: "evict ?c ?E gs rem = (gsE, remE)" by (cases "evict ?c ?E gs rem")
    from r one ev have g1: "gs1 = redistributeStudents gsE ?E remE ?c" and r1: "rem1 = remE"
      and p1: "pr1 = pr \<union> set I"
      by (auto simp: resolveConflict_def Let_def)
    have dE: "distinct ?E" using dI by (simp add: distinct_tl)
    have sub: "set ?E \<subseteq> set (filter (\<lambda>i. map_of ?m i = Some ?c) I)"
      by (metis list.set_sel(2) subsetI tl_Nil)
    then have inC: "\<forall>x \<in> set ?E. map_of ?m x = Some ?c" by auto
    have EI: "set ?E \<subseteq> set I" using sub by auto
    note cs = conflict_spec[OF dE inC ev]
    have A: "length gs1 = length gs" unfolding g1 using cs by (rule conjunct1)
    from cs[THEN conjunct2, THEN conjunct1] obtain evs where
      evs: "remE = rem @ evs" "sid ` set evs \<subseteq> set ?E" "set evs \<subseteq> set (concat gs)" by blast
    have "sid ` set evs \<subseteq> pr1" using evs(2) EI unfolding p1 by blast
    with evs have B: "\<exists>ev. rem1 = rem @ ev \<and> sid ` set ev \<subseteq> pr1 \<and> set ev \<subseteq> set (concat gs)"
      unfolding r1 by blast
    have C: "distinct (map sid (concat gs1))
          \<and> sid ` set (concat gs1) \<subseteq> sid ` set (concat gs)
          \<and> set (concat gs1) \<subseteq> set (concat gs) \<union> set rem
          \<and> (\<forall>s \<in> set (concat gs1). s \<in> set (concat gs) \<or> sid s \<in> pr1)"
      if dG: "distinct (map sid (concat gs))"
    proof -
      from cs[THEN conjunct2, THEN conjunct2, rule_format, OF dG]
      have c1: "distinct (map sid (concat gs1))"
        and c2: "sid ` set (concat gs1) \<subseteq> sid ` set (concat gs)"
        and c3: "set (concat gs1) \<subseteq> set (concat gs) \<union> set rem"
        and c4: "\<forall>s \<in> set (concat gs1). s \<in> set (concat gs) \<or> sid s \<in> set ?E"
        unfolding g1 by blast+
      have "\<forall>s \<in> set (concat gs1). s \<in> set (concat gs) \<or> sid s \<in> pr1"
        using c4 EI unfolding p1 by blast
      with c1 c2 c3 show ?thesis by blast
    qed
    have "pr \<subseteq> pr1" unfolding p1 by blast
    with A B C show ?thesis by blast
  qed
qed

lemma resolveConflict_length:
  "resolveConflict gs I rem pr = (gs1, rem1, pr1) \<Longrightarrow> distinct I \<Longrightarrow> length gs1 = length gs"
  using resolveConflict_spec by blast

lemma assignToDifferentGroups_total:
  assumes "gs \<noteq> []" "distinct I"
  shows "assignToDifferentGroups gs I rem pr \<noteq> None"
proof -
  obtain gs1 rem1 pr1 where r: "resolveConflict gs I rem pr = (gs1, rem1, pr1)"
    by (cases "resolveConflict gs I rem pr")
  from resolveConflict_length[OF r assms(2)] assms(1) have "gs1 \<noteq> []" by auto
  from assignUnplaced_total[OF this] r show ?thesis
    by (auto simp: assignToDifferentGroups_alt split: option.splits)
qed

lemma assignToDifferentGroups_spec:
  assumes a: "assignToDifferentGroups gs I rem pr = Some (gs', rem', pr')" and dI: "distinct I"
  shows "length gs' = length gs \<and> pr \<subseteq> pr'
     \<and> (\<exists>ev. rem' = rem @ ev \<and> sid ` set ev \<subseteq> pr' \<and> set ev \<subseteq> set (concat gs))
     \<and> (distinct (map sid (concat gs)) \<longrightarrow>
          distinct (map sid (concat gs'))
          \<and> set (concat gs') \<subseteq> set (concat gs) \<union> set rem
          \<and> (\<forall>s \<in> set (concat gs'). s \<in> set (concat gs) \<or> sid s \<in> pr'))"
proof -
  let ?m = "studentGroupMap gs I"
  obtain gs1 rem1 pr1 where r: "resolveConflict gs I rem pr = (gs1, rem1, pr1)"
    by (cases "resolveConflict gs I rem pr")
  from a r have u: "assignUnplaced ?m rem1 I (snd ` set ?m) gs1 pr1 = Some (gs', pr')"
    and rem': "rem' = rem1"
    by (auto simp: assignToDifferentGroups_alt split: option.splits)
  note rc = resolveConflict_spec[OF r dI]
  note l1 = rc[THEN conjunct1]
  note p1 = rc[THEN conjunct2, THEN conjunct1]
  from rc[THEN conjunct2, THEN conjunct2, THEN conjunct1]
  obtain evs where evs: "rem1 = rem @ evs" "sid ` set evs \<subseteq> pr1"
    "set evs \<subseteq> set (concat gs)" by blast
  note au = assignUnplaced_spec[OF u dI]
  note l2 = au[THEN conjunct1]
  note p2 = au[THEN conjunct2, THEN conjunct1]
  from au[THEN conjunct2, THEN conjunct2] obtain added where
    m2: "mset (concat gs') = mset (concat gs1) + mset added"
    and ad: "set added \<subseteq> set rem1" "distinct (map sid added)"
      "sid ` set added \<subseteq> {x \<in> set I. map_of ?m x = None}" "sid ` set added \<subseteq> pr'"
    by blast
  have me: "mset (concat gs') = mset (concat gs1 @ added)"
    unfolding mset_append by (rule m2)
  have set2: "set (concat gs') = set (concat gs1) \<union> set added"
    using set_mset_eq[OF me] unfolding set_append .
  have "sid ` set evs \<subseteq> pr'" using evs(2) p2 by blast
  with evs have B: "\<exists>ev. rem' = rem @ ev \<and> sid ` set ev \<subseteq> pr' \<and> set ev \<subseteq> set (concat gs)"
    unfolding rem' by blast
  have C: "distinct (map sid (concat gs))
           \<longrightarrow> distinct (map sid (concat gs'))
          \<and> set (concat gs') \<subseteq> set (concat gs) \<union> set rem
          \<and> (\<forall>s \<in> set (concat gs'). s \<in> set (concat gs) \<or> sid s \<in> pr')"
  proof
    assume dG: "distinct (map sid (concat gs))"
    note cc = rc[THEN conjunct2, THEN conjunct2, THEN conjunct2, rule_format, OF dG]
    note c1 = cc[THEN conjunct1]
    note c2 = cc[THEN conjunct2, THEN conjunct1]
    note c3 = cc[THEN conjunct2, THEN conjunct2, THEN conjunct1]
    note c4 = cc[THEN conjunct2, THEN conjunct2, THEN conjunct2]
    have disj: "sid ` set (concat gs1) \<inter> sid ` set added = {}"
    proof (rule ccontr)
      assume "sid ` set (concat gs1) \<inter> sid ` set added \<noteq> {}"
      then obtain x where x: "x \<in> sid ` set (concat gs1)" "x \<in> sid ` set added" by blast
      from x(2) ad(3) have "x \<in> {x \<in> set I. map_of ?m x = None}" by (rule subsetD[rotated])
      then have xI: "x \<in> set I" and xm: "map_of ?m x = None"
        unfolding mem_Collect_eq by (rule conjunct1, rule conjunct2)
      from x(1) c2 have "x \<in> sid ` set (concat gs)" by (rule subsetD[rotated])
      with xI have "map_of ?m x \<noteq> None" by (simp only: studentGroupMap_dom simp_thms)
      from this xm show False by (rule notE)
    qed
    have "distinct (map sid (concat gs1 @ added))"
      unfolding map_append distinct_append set_map using c1 ad(2) disj by (intro conjI)
    then have d: "distinct (map sid (concat gs'))"
      unfolding distinct_map_mset_eq[OF me, of sid] .
    have "set added \<subseteq> set rem \<union> set (concat gs)"
      using ad(1) evs(3) unfolding evs(1) set_append by blast
    with c3 have s: "set (concat gs') \<subseteq> set (concat gs) \<union> set rem"
      unfolding set2 by blast
    have k: "\<forall>s \<in> set (concat gs'). s \<in> set (concat gs) \<or> sid s \<in> pr'"
      unfolding set2 using c4 p2 ad(4) by blast
    from d s k show "distinct (map sid (concat gs'))
          \<and> set (concat gs') \<subseteq> set (concat gs) \<union> set rem
          \<and> (\<forall>s \<in> set (concat gs'). s \<in> set (concat gs) \<or> sid s \<in> pr')"
      by (intro conjI)
  qed
  have A: "length gs' = length gs" using l1 l2 by (rule trans[rotated])
  have P: "pr \<subseteq> pr'" using p1 p2 by (rule subset_trans)
  from A P B C show ?thesis by (intro conjI)
qed

lemma differentGroupLoop_total:
  "gs \<noteq> [] \<Longrightarrow> \<forall>p \<in> set pairs. distinct p \<Longrightarrow> differentGroupLoop pairs gs rem pr \<noteq> None"
proof (induction pairs arbitrary: gs rem pr)
  case Nil
  then show ?case by simp
next
  case (Cons pair pairs)
  from Cons.prems have dp: "distinct pair" and dps: "\<forall>p \<in> set pairs. distinct p" by simp_all
  obtain gs1 rem1 pr1 where a: "assignToDifferentGroups gs pair rem pr = Some (gs1, rem1, pr1)"
    using assignToDifferentGroups_total[OF Cons.prems(1) dp, of rem pr]
    by (cases "assignToDifferentGroups gs pair rem pr") auto
  from assignToDifferentGroups_spec[OF a dp] Cons.prems(1) have "gs1 \<noteq> []" by auto
  from Cons.IH[OF this dps] a show ?case by simp
qed

text \<open>The state of the loop of DifferentGroupHandler, relative to the context it started from.\<close>

definition diffInv ::
  "groups \<Rightarrow> student list \<Rightarrow> groups \<Rightarrow> student list \<Rightarrow> int set \<Rightarrow> bool" where
  "diffInv gs0 rem0 gs rem pr \<longleftrightarrow>
     distinct (map sid (concat gs))
     \<and> set (concat gs) \<union> set rem \<subseteq> set (concat gs0) \<union> set rem0
     \<and> (\<forall>s \<in> set (concat gs). s \<in> set (concat gs0) \<or> sid s \<in> pr)
     \<and> filter (\<lambda>s. sid s \<notin> pr) rem = filter (\<lambda>s. sid s \<notin> pr) rem0"

lemma diffInv_step:
  assumes a: "assignToDifferentGroups gs I rem pr = Some (gs', rem', pr')" and dI: "distinct I"
    and inv: "diffInv gs0 rem0 gs rem pr"
  shows "diffInv gs0 rem0 gs' rem' pr'"
proof -
  from inv have dG: "distinct (map sid (concat gs))"
    and sub: "set (concat gs) \<union> set rem \<subseteq> set (concat gs0) \<union> set rem0"
    and k: "\<forall>s \<in> set (concat gs). s \<in> set (concat gs0) \<or> sid s \<in> pr"
    and f: "filter (\<lambda>s. sid s \<notin> pr) rem = filter (\<lambda>s. sid s \<notin> pr) rem0"
    unfolding diffInv_def by blast+
  note sp = assignToDifferentGroups_spec[OF a dI]
  from sp have pp: "pr \<subseteq> pr'" by blast
  from sp obtain evs where evs: "rem' = rem @ evs" "sid ` set evs \<subseteq> pr'"
    "set evs \<subseteq> set (concat gs)" by blast
  from sp dG have d': "distinct (map sid (concat gs'))"
    and s': "set (concat gs') \<subseteq> set (concat gs) \<union> set rem"
    and k': "\<forall>s \<in> set (concat gs'). s \<in> set (concat gs) \<or> sid s \<in> pr'"
    by blast+
  have 2: "set (concat gs') \<union> set rem' \<subseteq> set (concat gs0) \<union> set rem0"
    using s' sub evs(3) unfolding evs(1) set_append by blast
  have 3: "\<forall>s \<in> set (concat gs'). s \<in> set (concat gs0) \<or> sid s \<in> pr'"
    using k' k pp by blast
  have e: "filter (\<lambda>s. sid s \<notin> pr') evs = []"
    using evs(2) by (auto simp: filter_empty_conv)
  have ff: "filter (\<lambda>s. sid s \<notin> pr') xs = filter (\<lambda>s. sid s \<notin> pr') (filter (\<lambda>s. sid s \<notin> pr) xs)"
    for xs :: "student list"
    using pp by (auto intro: filter_cong)
  have 4: "filter (\<lambda>s. sid s \<notin> pr') rem' = filter (\<lambda>s. sid s \<notin> pr') rem0"
    unfolding evs(1) filter_append e append_Nil2
    by (subst ff, subst (2) ff) (simp only: f)
  from d' 2 3 4 show ?thesis unfolding diffInv_def by blast
qed

lemma differentGroupLoop_spec:
  "differentGroupLoop pairs gs rem pr = Some (gs', rem', pr') \<Longrightarrow> \<forall>p \<in> set pairs. distinct p \<Longrightarrow>
   length gs' = length gs \<and> (diffInv gs0 rem0 gs rem pr \<longrightarrow> diffInv gs0 rem0 gs' rem' pr')"
proof (induction pairs arbitrary: gs rem pr)
  case Nil
  then show ?case by simp
next
  case (Cons pair pairs)
  from Cons.prems(2) have dp: "distinct pair" and dps: "\<forall>p \<in> set pairs. distinct p" by simp_all
  from Cons.prems(1) obtain gs1 rem1 pr1 where
    a: "assignToDifferentGroups gs pair rem pr = Some (gs1, rem1, pr1)"
    and r: "differentGroupLoop pairs gs1 rem1 pr1 = Some (gs', rem', pr')"
    by (auto split: option.splits)
  from assignToDifferentGroups_spec[OF a dp] have l: "length gs1 = length gs" by blast
  from Cons.IH[OF r dps] l diffInv_step[OF a dp] show ?case by auto
qed

lemma diffInv_final:
  assumes ok: "ctxOK R gs0 rem0" and inv: "diffInv gs0 rem0 gs rem pr"
  shows "ctxOK R gs (filter (\<lambda>s. sid s \<notin> pr) rem)"
proof -
  let ?final = "filter (\<lambda>s. sid s \<notin> pr) rem"
  from inv have dG: "distinct (map sid (concat gs))"
    and sub: "set (concat gs) \<union> set rem \<subseteq> set (concat gs0) \<union> set rem0"
    and k: "\<forall>s \<in> set (concat gs). s \<in> set (concat gs0) \<or> sid s \<in> pr"
    and f: "?final = filter (\<lambda>s. sid s \<notin> pr) rem0"
    unfolding diffInv_def by blast+
  from ok have d0: "distinct (map sid (concat gs0 @ rem0))"
    and s0: "set (concat gs0) \<union> set rem0 \<subseteq> set R" unfolding ctxOK_def by blast+
  have dF: "distinct (map sid ?final)" unfolding f using d0 by (simp add: distinct_map_filter)
  have disj: "sid ` set (concat gs) \<inter> sid ` set ?final = {}"
  proof (rule ccontr)
    assume "sid ` set (concat gs) \<inter> sid ` set ?final \<noteq> {}"
    then obtain s t where st: "s \<in> set (concat gs)" "t \<in> set ?final" "sid s = sid t" by force
    from st(2) have t: "t \<in> set rem0" "sid t \<notin> pr" unfolding f by simp_all
    with st k have "s \<in> set (concat gs0)" by force
    with t(1) st(3) d0 show False by force
  qed
  have "distinct (map sid (concat gs @ ?final))" using dG dF disj by simp
  moreover have "set ?final \<subseteq> set rem" by simp
  then have "set (concat gs) \<union> set ?final \<subseteq> set R" using sub s0 by blast
  ultimately show ?thesis unfolding ctxOK_def by blast
qed

lemma differentProcess_ok:
  assumes rs: "fair rs" and nxt: "handlerOK R nextHandle"
  shows "handlerOK R (differentProcess nextHandle rs)"
  unfolding handlerOK_def
proof (intro allI)
  fix ctx :: groupingContext
  let ?gs = "ctxGroups ctx" and ?rem = "ctxRemaining ctx"
  let ?goal = "(?gs \<noteq> [] \<longrightarrow> differentProcess nextHandle rs ctx \<noteq> None)
        \<and> (\<forall>r. differentProcess nextHandle rs ctx = Some r \<longrightarrow>
              length (resGroups r) = length ?gs
              \<and> (ctxOK R ?gs ?rem \<longrightarrow> ctxOK R (resGroups r) []))"
  show ?goal
  proof (cases "findCondition ''different-group'' (ctxConditions ctx)")
    case None
    then show ?thesis using declined_ok[of False ctx R] by (simp add: differentProcess_def)
  next
    case (Some c)
    let ?pairs = "parseDifferentGroupInput (input c)"
    have dp: "\<forall>p \<in> set ?pairs. distinct p"
      by (simp add: parseDifferentGroupInput_def parseGroupList_distinct)
    show ?thesis
    proof (cases "?pairs = []")
      case True
      with Some show ?thesis using declined_ok[of True ctx R] by (simp add: differentProcess_def)
    next
      case False
      show ?thesis
      proof (cases "differentGroupLoop ?pairs ?gs ?rem {}")
        case None
        with differentGroupLoop_total[OF _ dp, of ?gs ?rem "{}"] have "?gs = []" by auto
        with None Some False show ?thesis by (simp add: differentProcess_def)
      next
        case dS: (Some a)
        obtain gs' rem' pr where a: "a = (gs', rem', pr)" by (cases a)
        let ?final = "filter (\<lambda>s. sid s \<notin> pr) rem'"
        note sp = differentGroupLoop_spec[OF dS[unfolded a] dp, of ?gs ?rem]
        from sp have l: "length gs' = length ?gs" by blast
        have ok: "ctxOK R ?gs ?rem \<longrightarrow> ctxOK R gs' ?final"
        proof
          assume c: "ctxOK R ?gs ?rem"
          then have "distinct (map sid (concat ?gs))" by (simp add: ctxOK_def)
          then have "diffInv ?gs ?rem ?gs ?rem {}" by (simp add: diffInv_def)
          with sp have "diffInv ?gs ?rem gs' rem' pr" by blast
          from diffInv_final[OF c this] show "ctxOK R gs' ?final" .
        qed
        have eq: "differentProcess nextHandle rs ctx = passOn nextHandle rs DiffRest ctx gs' ?final"
          using Some False dS a by (simp add: differentProcess_def)
        from passOn_ok[OF rs nxt, of gs' DiffRest ctx ?final] l ok
        show ?thesis unfolding eq by auto
      qed
    qed
  qed
qed

lemma blockHandle_ok: "fair rs \<Longrightarrow> handlerOK R (blockHandle rs)"
  unfolding blockHandle_def sameHandle_def differentHandle_def
  by (intro handleWith_ok blockProcess_ok sameProcess_ok differentProcess_ok genderHandle_ok)

section \<open>The whole run: chain followed by equalizer\<close>

lemma half_le: "Suc i div 2 \<le> i"
  by arith

lemma fair_midpoint: "fair midpoint"
  by (simp add: fair_def midpoint_def half_le)

lemma concat_replicate_Nil: "concat (replicate n []) = []"
  by (induction n) simp_all

lemma sid_resetLeader: "sid (resetLeader s) = sid s"
  by (simp add: resetLeader_def)

lemma map_sid_resetLeader: "map sid (map resetLeader xs) = map sid xs"
  by (simp add: sid_resetLeader comp_def)

lemma toDistribute_perm:
  assumes dR: "distinct (map sid R)" and dA: "distinct (map sid (concat gs))"
    and sub: "set (concat gs) \<subseteq> set R"
  shows "mset (studentsToDistribute gs R) = mset R"
proof -
  let ?A = "concat gs"
  have inj: "inj_on sid (set R)" and distR: "distinct R"
    using dR by (simp_all add: distinct_map)
  have distA: "distinct ?A" using dA by (simp only: distinct_map)
  have eqv: "\<forall>s \<in> set R. isAssigned ?A s \<longleftrightarrow> s \<in> set ?A"
  proof
    fix s assume s: "s \<in> set R"
    show "isAssigned ?A s \<longleftrightarrow> s \<in> set ?A"
    proof
      assume "isAssigned ?A s"
      then obtain a where a: "a \<in> set ?A" "sid a = sid s" unfolding isAssigned_def by force
      with sub have "a \<in> set R" by blast
      from inj_onD[OF inj a(2) this s] have "a = s" .
      with a(1) show "s \<in> set ?A" by simp
    next
      assume "s \<in> set ?A" then show "isAssigned ?A s" unfolding isAssigned_def by (rule imageI)
    qed
  qed
  have f1: "filter (\<lambda>s. \<not> isAssigned ?A s) R = filter (\<lambda>s. s \<notin> set ?A) R"
    by (rule filter_cong[OF refl]) (simp add: eqv)
  have "set (filter (\<lambda>s. s \<in> set ?A) R) = set ?A" using sub by auto
  moreover have "distinct (filter (\<lambda>s. s \<in> set ?A) R)" using distR by simp
  ultimately have f2: "mset ?A = mset (filter (\<lambda>s. s \<in> set ?A) R)"
    using distA by (simp only: set_eq_iff_mset_eq_distinct[symmetric])
  have "mset (studentsToDistribute gs R) = mset ?A + mset (filter (\<lambda>s. \<not> isAssigned ?A s) R)"
    by (simp only: studentsToDistribute_def Let_def mset_append)
  also have "\<dots> = mset (filter (\<lambda>s. s \<in> set ?A) R) + mset (filter (\<lambda>s. s \<notin> set ?A) R)"
    by (simp only: f1 f2[symmetric])
  also have "\<dots> = mset R" by (simp only: mset_filter multiset_partition[symmetric])
  finally show ?thesis .
qed

lemma chain_result:
  fixes R :: "student list" and n :: nat and cs :: "condition list"
  assumes rs: "fair rs"
  defines "ctx \<equiv> \<lparr>ctxStudents = R, ctxGroups = replicate n [], ctxConditions = cs, ctxRemaining = R\<rparr>"
  shows "(0 < n \<longrightarrow> blockHandle rs ctx \<noteq> None)
     \<and> (\<forall>r. blockHandle rs ctx = Some r \<longrightarrow> length (resGroups r) = n
           \<and> (distinct (map sid R) \<longrightarrow> distinct (map sid (concat (resGroups r)))
                 \<and> set (concat (resGroups r)) \<subseteq> set R))"
proof -
  have h: "(ctxGroups ctx \<noteq> [] \<longrightarrow> blockHandle rs ctx \<noteq> None)
        \<and> (\<forall>r. blockHandle rs ctx = Some r \<longrightarrow> length (resGroups r) = length (ctxGroups ctx)
              \<and> (ctxOK R (ctxGroups ctx) (ctxRemaining ctx) \<longrightarrow> ctxOK R (resGroups r) []))"
    using blockHandle_ok[OF rs, of R] unfolding handlerOK_def by blast
  have g: "ctxGroups ctx = replicate n []" and rm: "ctxRemaining ctx = R"
    by (simp_all add: ctx_def)
  have ok: "distinct (map sid R) \<Longrightarrow> ctxOK R (ctxGroups ctx) (ctxRemaining ctx)"
    unfolding g rm ctxOK_def by (simp add: concat_replicate_Nil)
  show ?thesis
  proof (intro conjI allI impI)
    assume "0 < n"
    then have "ctxGroups ctx \<noteq> []" unfolding g by (cases n) simp_all
    with h show "blockHandle rs ctx \<noteq> None" by blast
  next
    fix r assume "blockHandle rs ctx = Some r"
    with h show "length (resGroups r) = n" unfolding g by simp
  next
    fix r assume r: "blockHandle rs ctx = Some r" and d: "distinct (map sid R)"
    from h r ok[OF d] have "ctxOK R (resGroups r) []" by blast
    then show "distinct (map sid (concat (resGroups r)))" unfolding ctxOK_def by simp
  next
    fix r assume r: "blockHandle rs ctx = Some r" and d: "distinct (map sid R)"
    from h r ok[OF d] have "ctxOK R (resGroups r) []" by blast
    then show "set (concat (resGroups r)) \<subseteq> set R" unfolding ctxOK_def by simp
  qed
qed

lemma performGrouping_spec:
  assumes n: "0 < n" and rs: "fair rs"
  shows "\<exists>out t. performGrouping rs saved n roster = Some out \<and> length out = n
     \<and> (\<forall>i<n. length (out ! i) = targetSize (t div n) (t mod n) i)
     \<and> (distinct (map sid roster) \<longrightarrow>
           t = length roster \<and> mset (concat out) = mset (map resetLeader roster))"
proof -
  let ?R = "map resetLeader roster"
  let ?ctx = "\<lparr>ctxStudents = ?R, ctxGroups = replicate n [], ctxConditions = filter enabled saved,
               ctxRemaining = ?R\<rparr>"
  note ch = chain_result[OF rs, of n ?R "filter enabled saved"]
  from ch n obtain r where r: "blockHandle rs ?ctx = Some r" by blast
  let ?gs = "if handled r then resGroups r else replicate n []"
  from ch r have len: "length ?gs = n" by simp
  have pg: "performGrouping rs saved n roster = forceEqualDistribution rs ?gs ?R"
    by (simp add: performGrouping_def Let_def r)
  let ?t = "length (studentsToDistribute ?gs ?R)"
  from n len have n': "0 < length ?gs" by simp
  from equalizer_spec[OF n' rs, of ?R] obtain out where
    out: "forceEqualDistribution rs ?gs ?R = Some out" "length out = length ?gs"
      "\<forall>i<length ?gs. length (out ! i) = targetSize (?t div length ?gs) (?t mod length ?gs) i"
      "mset (concat out) = mset (studentsToDistribute ?gs ?R)" by blast
  have perm: "mset (studentsToDistribute ?gs ?R) = mset ?R" if d: "distinct (map sid roster)"
  proof (rule toDistribute_perm)
    from d show dR: "distinct (map sid ?R)" by (simp only: map_sid_resetLeader)
    from ch r dR show "distinct (map sid (concat ?gs))" by (simp add: concat_replicate_Nil)
    from ch r dR show "set (concat ?gs) \<subseteq> set ?R" by (simp add: concat_replicate_Nil)
  qed
  have t: "?t = length roster" if d: "distinct (map sid roster)"
    using perm[OF d, THEN arg_cong[where f = size]] by simp
  show ?thesis
  proof (intro exI[of _ out] exI[of _ ?t] conjI impI)
    show "performGrouping rs saved n roster = Some out" unfolding pg by (rule out(1))
    show "length out = n" using out(2) len by simp
    show "\<forall>i<n. length (out ! i) = targetSize (?t div n) (?t mod n) i"
      using out(3) unfolding len .
  next
    assume d: "distinct (map sid roster)"
    show "?t = length roster" by (rule t[OF d])
    show "mset (concat out) = mset ?R" using out(4) perm[OF d] by simp
  qed
qed


lemma spread_le_1:
  fixes xs :: "nat list"
  assumes ne: "xs \<noteq> []" and b: "\<forall>x \<in> set xs. b \<le> x \<and> x \<le> Suc b"
  shows "Max (set xs) - Min (set xs) \<le> 1"
proof -
  have fin: "finite (set xs)" and ne': "set xs \<noteq> {}" using ne by simp_all
  have "Max (set xs) \<le> Suc b" using b by (simp only: Max_le_iff[OF fin ne']) blast
  moreover have "b \<le> Min (set xs)" using b by (simp only: Min_ge_iff[OF fin ne']) blast
  ultimately show ?thesis by arith
qed

lemma targetSize_spread:
  assumes n: "0 < n" and len: "length out = n"
    and sz: "\<forall>i<n. length (out ! i) = targetSize b e i"
  shows "Max (set (map length out)) - Min (set (map length out)) \<le> 1"
proof (rule spread_le_1[where b = b])
  show "map length out \<noteq> []" using n len by (cases out) simp_all
  show "\<forall>x \<in> set (map length out). b \<le> x \<and> x \<le> Suc b"
  proof
    fix x assume "x \<in> set (map length out)"
    then obtain i where "i < length out" "x = length (out ! i)"
      by (auto simp: in_set_conv_nth)
    with sz len have "x = targetSize b e i" by simp
    then show "b \<le> x \<and> x \<le> Suc b" by (simp add: targetSize_def)
  qed
qed



lemma equalizer_no_groups:
  assumes rs: "fair rs" and ne: "R \<noteq> []"
  shows "forceEqualDistribution rs [] R = None"
proof -
  have td: "studentsToDistribute [] R = R"
    by (simp add: studentsToDistribute_def isAssigned_def)
  let ?ms = "shuf rs EqualMales (filter (\<lambda>s. gender s = Male) R)"
  let ?fs = "shuf rs EqualFemales (filter (\<lambda>s. gender s = Female) R)"
  have "mset ?ms + mset ?fs = mset R"
    using rs gender_split[of R] by (simp add: fair_def)
  from this[THEN arg_cong[where f = size]] ne have pos: "0 < length ?ms + length ?fs"
    by simp
  show ?thesis
  proof (cases ?ms)
    case (Cons m ms')
    then show ?thesis
      by (simp add: forceEqualDistribution_def td Let_def pushTo_def)
  next
    case Nil
    with pos obtain f fs' where fs: "?fs = f # fs'" by (cases ?fs) simp_all
    have "femaleLoop (length R div 0) (length R mod 0) (f # fs') 0 [] = None"
      by (subst femaleLoop.simps) simp
    with Nil fs show ?thesis
      by (simp add: forceEqualDistribution_def td Let_def)
  qed
qed

lemma performGrouping_no_groups:
  assumes rs: "fair rs" and ne: "roster \<noteq> []"
  shows "performGrouping rs saved 0 roster = None"
proof -
  let ?R = "map resetLeader roster"
  let ?ctx = "\<lparr>ctxStudents = ?R, ctxGroups = replicate 0 [], ctxConditions = filter enabled saved,
               ctxRemaining = ?R\<rparr>"
  note ch = chain_result[OF rs, of 0 ?R "filter enabled saved"]
  from ne have neR: "?R \<noteq> []" by simp
  show ?thesis
  proof (cases "blockHandle rs ?ctx")
    case None
    then show ?thesis by (simp add: performGrouping_def Let_def)
  next
    case (Some r)
    with ch have "resGroups r = []" by simp
    with Some equalizer_no_groups[OF rs neR] show ?thesis
      by (simp add: performGrouping_def Let_def)
  qed
qed

lemma performGrouping_no_students:
  assumes n: "0 < n" and rs: "fair rs"
  shows "performGrouping rs saved n [] = Some (replicate n [])"
proof -
  from performGrouping_spec[OF n rs, of saved "[]"] obtain out where
    out: "performGrouping rs saved n [] = Some out" "length out = n" "mset (concat out) = {#}"
    by auto
  from out(3) have "\<forall>g \<in> set out. g = []" by simp
  then have "replicate (length out) [] = out" by (rule replicate_length_same)
  with out(1,2) show ?thesis by simp
qed

subsection \<open>Block inputs that differ in surrounding white space\<close>

definition trimmedPieces :: "char \<Rightarrow> string \<Rightarrow> string list" where
  "trimmedPieces sep s = filter (\<lambda>piece. piece \<noteq> []) (map trim (splitChar sep s))"

lemma splitChar_ne: "splitChar c s \<noteq> []"
  by (induction s) (auto split: list.splits)

lemma isSpace_nl: "isSpace (CHR 0x0A)"
  by (simp add: isSpace_def)

lemma trim_Cons_space: "isSpace c \<Longrightarrow> trim (c # w) = trim w"
  by (simp add: trim_def)

lemma trim_snoc_space:
  assumes "isSpace c" shows "trim (w @ [c]) = trim w"
proof (cases "\<forall>x \<in> set w. isSpace x")
  case True
  then have d: "dropWhile isSpace w = []" by simp
  from True assms show ?thesis by (simp add: trim_def dropWhile_append d)
next
  case False
  with assms show ?thesis by (auto simp: trim_def dropWhile_append)
qed

lemma trim_Nil: "trim [] = []"
  by (simp add: trim_def)

lemma trimmedPieces_Cons_space:
  assumes "isSpace c" shows "trimmedPieces sep (c # s) = trimmedPieces sep s"
proof (cases "c = sep")
  case True
  then show ?thesis by (simp add: trimmedPieces_def trim_Nil)
next
  case False
  obtain w ws where w: "splitChar sep s = w # ws"
    using splitChar_ne[of sep s] by (cases "splitChar sep s") simp_all
  with False assms show ?thesis by (simp add: trimmedPieces_def trim_Cons_space)
qed

lemma splitChar_snoc:
  "splitChar c (s @ [d]) =
     (if d = c then splitChar c s @ [[]]
      else butlast (splitChar c s) @ [last (splitChar c s) @ [d]])"
proof (induction s)
  case Nil
  then show ?case by simp
next
  case (Cons x s)
  obtain w ws where w: "splitChar c s = w # ws"
    using splitChar_ne[of c s] by (cases "splitChar c s") simp_all
  show ?case
  proof (cases "d = c")
    case True
    with Cons w show ?thesis by simp
  next
    case False
    with Cons w show ?thesis by (cases ws) (auto split: list.splits)
  qed
qed

lemma trimmedPieces_snoc_space:
  assumes "isSpace c" shows "trimmedPieces sep (s @ [c]) = trimmedPieces sep s"
proof (cases "c = sep")
  case True
  then show ?thesis by (simp add: trimmedPieces_def splitChar_snoc trim_Nil)
next
  case False
  let ?L = "splitChar sep s"
  have L: "butlast ?L @ [last ?L] = ?L" using splitChar_ne by simp
  have "trimmedPieces sep (s @ [c])
      = filter (\<lambda>line. line \<noteq> []) (map trim (butlast ?L) @ [trim (last ?L)])"
    using False assms by (simp add: trimmedPieces_def splitChar_snoc trim_snoc_space)
  also have "\<dots> = filter (\<lambda>line. line \<noteq> []) (map trim (butlast ?L @ [last ?L]))"
    by simp
  finally show ?thesis unfolding L trimmedPieces_def .
qed

lemma trimmedPieces_dropWhile: "trimmedPieces sep (dropWhile isSpace s) = trimmedPieces sep s"
  by (induction s) (simp_all add: trimmedPieces_Cons_space)

lemma trimmedPieces_rev_dropWhile: "trimmedPieces sep (rev (dropWhile isSpace r)) = trimmedPieces sep (rev r)"
  by (induction r) (simp_all add: trimmedPieces_snoc_space)

lemma trimmedPieces_trim: "trimmedPieces sep (trim s) = trimmedPieces sep s"
proof -
  have "trimmedPieces sep (trim s) = trimmedPieces sep (rev (rev (dropWhile isSpace s)))"
    unfolding trim_def by (rule trimmedPieces_rev_dropWhile)
  then show ?thesis by (simp add: trimmedPieces_dropWhile)
qed

lemma parseBlockInput_lines:
  "parseBlockInput s =
     (if trim s = [] then []
      else sortBy byValue (uniq [] (concat (map (\<lambda>line.
             concat (map parsePart (filter (\<lambda>part. part \<noteq> [])
                (map trim (splitRuns isBlockSep False line))))) (trimmedPieces (CHR 0x0A) s)))))"
  by (simp add: parseBlockInput_def trimmedPieces_def Let_def)

lemma parseBlockInput_trim_cong:
  assumes "trim a = trim b" shows "parseBlockInput a = parseBlockInput b"
proof -
  have "trimmedPieces (CHR 0x0A) a = trimmedPieces (CHR 0x0A) b"
    using trimmedPieces_trim[of "CHR 0x0A" a] trimmedPieces_trim[of "CHR 0x0A" b] assms by simp
  with assms show ?thesis by (simp add: parseBlockInput_lines)
qed


definition blockOf :: "slot \<Rightarrow> int list list" where
  "blockOf sl = (case sl of
       Str inp \<Rightarrow> if trim inp \<noteq> []
                  then (let parsedBlock = parseBlockInput inp
                        in if parsedBlock \<noteq> [] then [parsedBlock] else [])
                  else []
     | _ \<Rightarrow> [])"

lemma configuredBlocks_blockOf:
  "configuredBlocks c = (case blockInputs c of None \<Rightarrow> [] | Some slots \<Rightarrow> concat (map blockOf slots))"
  unfolding configuredBlocks_def blockOf_def by (rule refl)

lemma blockOf_trim_cong: "trim a = trim b \<Longrightarrow> blockOf (Str a) = blockOf (Str b)"
  using parseBlockInput_trim_cong[of a b] by (simp add: blockOf_def)

lemma blockOf_spread: "map blockOf (spreadSlots slots) = map blockOf slots"
  by (induction slots) (auto simp: spreadSlots_def blockOf_def split: slot.splits)

lemma truthyBlocks_total: "Undef \<notin> set xs \<Longrightarrow> truthyBlocks xs \<noteq> None"
  by (induction xs rule: truthyBlocks.induct) simp_all

lemma Undef_assignSlot: "Undef \<notin> set xs \<Longrightarrow> Undef \<notin> set (assignSlot i v xs)"
proof (cases "i < length xs")
  case True
  assume "Undef \<notin> set xs"
  moreover have "set (xs[i := Str v]) \<subseteq> insert (Str v) (set xs)" by (rule set_update_subset_insert)
  ultimately show ?thesis using True by (auto simp: assignSlot_def)
next
  case False
  assume "Undef \<notin> set xs"
  with False show ?thesis by (auto simp: assignSlot_def)
qed

lemma spreadSlots_strings:
  "Undef \<notin> set slots \<Longrightarrow> Hole \<notin> set slots \<Longrightarrow> spreadSlots slots = slots"
  unfolding spreadSlots_def by (induction slots) (auto split: slot.splits)

lemma updateCondition_total:
  assumes "case blockInputs c of None \<Rightarrow> True
           | Some slots \<Rightarrow> Undef \<notin> set slots \<and> Hole \<notin> set slots"
  shows "updateCondition k i v c \<noteq> None"
proof (cases "blockInputs c")
  case None
  then show ?thesis by (simp add: updateCondition_def)
next
  case (Some slots)
  with assms have "Undef \<notin> set slots" "Hole \<notin> set slots" by simp_all
  then have "Undef \<notin> set (assignSlot i v (spreadSlots slots))"
    by (simp add: spreadSlots_strings Undef_assignSlot)
  from truthyBlocks_total[OF this] Some show ?thesis
    by (auto simp: updateCondition_def Let_def)
qed

lemma updateCondition_cid: "updateCondition k i v c = Some c' \<Longrightarrow> cid c' = cid c"
  by (auto simp: updateCondition_def Let_def split: option.splits if_splits)

lemma updateCondition_slots:
  assumes "updateCondition k i v c = Some c'" "cid c = k" "blockInputs c = Some slots"
  shows "blockInputs c' = Some (assignSlot i v (spreadSlots slots))"
  using assms by (auto simp: updateCondition_def Let_def split: option.splits)

lemma those_map_total: "(\<forall>x \<in> set xs. f x \<noteq> None) \<Longrightarrow> those (map f xs) \<noteq> None"
  by (induction xs) (auto split: option.splits)

lemma those_map_find:
  assumes "those (map f xs) = Some ys" and "\<And>c c'. f c = Some c' \<Longrightarrow> P c' = P c"
  shows "find P ys = (case find P xs of None \<Rightarrow> None | Some c \<Rightarrow> f c)"
  using assms(1)
proof (induction xs arbitrary: ys)
  case Nil
  then show ?case by simp
next
  case (Cons x xs)
  from Cons.prems obtain y ys' where y: "f x = Some y" "those (map f xs) = Some ys'" "ys = y # ys'"
    by (auto split: option.splits)
  from assms(2)[OF y(1)] have "P y = P x" .
  with Cons.IH[OF y(2)] y show ?case by simp
qed

lemma storedBlock_Str:
  assumes "storedBlock k i conds = Str old"
  shows "\<exists>c slots. find (\<lambda>c. cid c = k) conds = Some c \<and> cid c = k
            \<and> blockInputs c = Some slots \<and> i < length slots \<and> slots ! i = Str old"
proof -
  from assms obtain c where c: "find (\<lambda>c. cid c = k) conds = Some c"
    by (auto simp: storedBlock_def split: option.splits)
  then have "cid c = k" by (auto simp: find_Some_iff)
  moreover from assms c obtain slots where "blockInputs c = Some slots"
    by (auto simp: storedBlock_def split: option.splits)
  moreover from assms c calculation have "i < length slots \<and> slots ! i = Str old"
    by (auto simp: storedBlock_def split: if_splits slot.splits)
  ultimately show ?thesis using c by blast
qed

subsection \<open>Clusters with a duplicate id\<close>















section \<open>The equalizer as the specification describes it\<close>

















section \<open>Claims\<close>

text \<open>
  C4. End-to-end scenario: the roster with the males 1, 3 and the females 2, 4, two groups,
  every condition disabled (the initial conditions of the service) and the random source
  that returns the midpoint on every call. \<open>performGrouping\<close> returns the two groups
  \<open>{1, 2}\<close> and \<open>{3, 4}\<close>, in this order.
\<close>

theorem end_to_end_scenario:
  "performGrouping midpoint initialConditions 2 (initializeStudents ''1,3'' ''2,4'')
     = Some [[newStudent Male 1, newStudent Female 2], [newStudent Male 3, newStudent Female 4]]"
  by code_simp

text \<open>
  C10. \<open>addStudents(input, gender)\<close> throws exactly when one of the numbers parsed from
  the input is the id of a student of the roster, and the state is then the one before the
  call. When it does not throw, the students of the roster are the old ones and one new
  student per parsed number, sorted by id; their ids are distinct when those of the old
  roster were.
\<close>

theorem addStudents_atomic:
  "case addStudents inp g st of
     (Some e, st') \<Rightarrow> (\<exists>i \<in> set (parseNumberInput inp). i \<in> sid ` set (students st)) \<and> st' = st
   | (None, st') \<Rightarrow>
       (\<forall>i \<in> set (parseNumberInput inp). i \<notin> sid ` set (students st))
       \<and> mset (students st') = mset (students st) + mset (map (newStudent g) (parseNumberInput inp))
       \<and> sorted (map sid (students st'))
       \<and> (distinct (map sid (students st)) \<longrightarrow> distinct (map sid (students st')))"
proof (cases "filter (\<lambda>i. i \<in> set (map sid (students st))) (parseNumberInput inp) = []")
  case True
  then have none: "\<forall>i \<in> set (parseNumberInput inp). i \<notin> sid ` set (students st)"
    by (auto simp: filter_empty_conv)
  let ?new = "map (newStudent g) (parseNumberInput inp)"
  have ids: "map sid ?new = parseNumberInput inp"
    by (simp add: newStudent_def comp_def)
  have "distinct (map sid (students st)) \<longrightarrow> distinct (map sid (students st @ ?new))"
    using none ids distinct_parseNumberInput[of inp] by auto
  with True none show ?thesis
    by (simp add: addStudents_def Let_def updateBlocksAfterStudentChange_def mset_sortBy
        sorted_sortBy_byId distinct_map_sortBy del: map_append)
next
  case False
  then have "\<exists>i \<in> set (parseNumberInput inp). i \<in> sid ` set (students st)"
    by (auto simp: filter_empty_conv)
  with False show ?thesis by (simp add: addStudents_def Let_def)
qed

theorem addStudents_atomic_witness:
  "fst (addStudents ''3,2'' Male \<lparr>students = initializeStudents ''1'' [], blocks = []\<rparr>) = None
   \<and> distinct (map sid (students \<lparr>students = initializeStudents ''1'' [], blocks = []\<rparr>))
   \<and> map sid (students (snd (addStudents ''3,2'' Male
          \<lparr>students = initializeStudents ''1'' [], blocks = []\<rparr>))) = [1, 2, 3]
   \<and> distinct (map sid (students (snd (addStudents ''3,2'' Male
          \<lparr>students = initializeStudents ''1'' [], blocks = []\<rparr>))))
   \<and> fst (addStudents ''1'' Male \<lparr>students = initializeStudents ''1'' [], blocks = []\<rparr>)
       = Some (AlreadyExists [1])
   \<and> snd (addStudents ''1'' Male \<lparr>students = initializeStudents ''1'' [], blocks = []\<rparr>)
       = \<lparr>students = initializeStudents ''1'' [], blocks = []\<rparr>"
  using addStudents_atomic[where inp = "''3,2''" and g = Male
      and st = "\<lparr>students = initializeStudents ''1'' [], blocks = []\<rparr>"]
    addStudents_atomic[where inp = "''1''" and g = Male
      and st = "\<lparr>students = initializeStudents ''1'' [], blocks = []\<rparr>"]
  by code_simp

text \<open>
  C6. In one run of \<open>distributeBlockStudents\<close> the group pointer is shared by all
  blocks. The blocks are dealt as one sequence: the \<open>j\<close>-th student of the shuffled
  blocks, taken one after the other, goes to group \<open>j mod groupCount\<close>, and the blocks
  after any point start at the pointer at which the blocks before it stopped. So the
  first member of a block goes to the group after the one of the last member of the
  block before, and not to group 0.
\<close>

theorem block_pointer_shared:
  "0 < length gs \<Longrightarrow>
   distributeBlocks rs (length gs) bgs 0 0 gs
     = Some (roundRobinFrom (length gs) 0 (shuffledBlocks rs 0 bgs) gs,
             length (shuffledBlocks rs 0 bgs) mod length gs)
   \<and> (\<forall>bs1 bs2. bgs = bs1 @ bs2 \<longrightarrow>
        distributeBlocks rs (length gs) bgs 0 0 gs
          = distributeBlocks rs (length gs) bs2 (length bs1)
              (length (shuffledBlocks rs 0 bs1) mod length gs)
              (roundRobinFrom (length gs) 0 (shuffledBlocks rs 0 bs1) gs))"
proof (intro conjI allI impI)
  assume n: "0 < length gs"
  show "distributeBlocks rs (length gs) bgs 0 0 gs
     = Some (roundRobinFrom (length gs) 0 (shuffledBlocks rs 0 bgs) gs,
             length (shuffledBlocks rs 0 bgs) mod length gs)"
    using assignRoundRobin_closed[of "length gs" gs "shuffledBlocks rs 0 bgs" 0] n
    by (simp add: distributeBlocks_concat)
  fix bs1 bs2 assume "bgs = bs1 @ bs2"
  moreover have "distributeBlocks rs (length gs) bs1 0 0 gs
     = Some (roundRobinFrom (length gs) 0 (shuffledBlocks rs 0 bs1) gs,
             length (shuffledBlocks rs 0 bs1) mod length gs)"
    using assignRoundRobin_closed[of "length gs" gs "shuffledBlocks rs 0 bs1" 0] n
    by (simp add: distributeBlocks_concat)
  ultimately show "distributeBlocks rs (length gs) bgs 0 0 gs
          = distributeBlocks rs (length gs) bs2 (length bs1)
              (length (shuffledBlocks rs 0 bs1) mod length gs)
              (roundRobinFrom (length gs) 0 (shuffledBlocks rs 0 bs1) gs)"
    by (simp add: distributeBlocks_append)
qed

text \<open>
  The blocks \<open>{1, 2, 3}\<close> and \<open>{4, 5}\<close>, two groups, no shuffling: student 3, the
  last of the first block, goes to group 0, and student 4, the first of the second block,
  to group 1.
\<close>

theorem block_pointer_shared_witness:
  "0 < length [[], [] :: student list]
   \<and> distributeBlocks midpoint 2
        [map (newStudent Male) [1, 2, 3], map (newStudent Male) [4, 5]] 0 0 [[], []]
       = Some ([map (newStudent Male) [1, 3, 5], map (newStudent Male) [2, 4]], 1)
   \<and> map_option (\<lambda>(gs, processed). map (map sid) gs)
        (distributeBlockStudents midpoint [[], []] [[1, 2, 3], [4, 5]]
           (map (newStudent Male) [1, 2, 3, 4, 5]))
       = Some [[1, 3, 5], [2, 4]]"
proof -
  let ?bgs = "[map (newStudent Male) [1, 2, 3], map (newStudent Male) [4, 5]]"
  let ?S = "shuffledBlocks midpoint 0 ?bgs"
  have n: "0 < length [[], [] :: student list]" by simp
  have len: "length [[], [] :: student list] = 2" by simp
  have a: "distributeBlocks midpoint 2 ?bgs 0 0 [[], []]
     = Some (roundRobinFrom 2 0 ?S [[], []], length ?S mod 2)"
    using block_pointer_shared[OF n, where rs = midpoint and bgs = ?bgs]
    unfolding len by (rule conjunct1)
  have b: "roundRobinFrom 2 0 ?S [[], []]
     = [map (newStudent Male) [1, 3, 5], map (newStudent Male) [2, 4]]"
    by code_simp
  have c: "length ?S mod 2 = 1"
    by code_simp
  have d: "map_option (\<lambda>(gs, processed). map (map sid) gs)
        (distributeBlockStudents midpoint [[], []] [[1, 2, 3], [4, 5]]
           (map (newStudent Male) [1, 2, 3, 4, 5]))
       = Some [[1, 3, 5], [2, 4]]"
    by code_simp
  show ?thesis
  proof (intro conjI)
    show "0 < length [[], [] :: student list]" by (rule n)
    show "distributeBlocks midpoint 2 ?bgs 0 0 [[], []]
       = Some ([map (newStudent Male) [1, 3, 5], map (newStudent Male) [2, 4]], 1)"
      unfolding a b c by (rule refl)
    show "map_option (\<lambda>(gs, processed). map (map sid) gs)
        (distributeBlockStudents midpoint [[], []] [[1, 2, 3], [4, 5]]
           (map (newStudent Male) [1, 2, 3, 4, 5]))
       = Some [[1, 3, 5], [2, 4]]" by (rule d)
  qed
qed

text \<open>
  C5. The eviction path of \<open>assignToDifferentGroups\<close> does not keep the members of a
  cluster apart. Three groups hold \<open>{1, 2, 3}\<close>, \<open>{4, 5, 6, 7, 8}\<close> and nobody, student
  9 is unplaced, and the cluster is \<open>[1, 2, 3]\<close>: students 2 and 3 are taken out of the
  first group and both are put into the third. The chain reaches this state with the
  same-group input \<open>1,2,3;4,5,6,7,8\<close> and ends with 2 and 3 in one group. In the example
  of the claim (cluster \<open>[1, 2]\<close> in one of two groups) the two are separated.
\<close>

theorem eviction_reuses_group:
  "map_option (\<lambda>(gs, remaining, processed). map (map sid) gs)
     (assignToDifferentGroups
        [map (newStudent Male) [1, 2, 3], map (newStudent Male) [4, 5, 6, 7, 8], []]
        [1, 2, 3] [newStudent Male 9] {})
     = Some [[1], [4, 5, 6, 7, 8], [2, 3]]
   \<and> map_option (\<lambda>r. map (map sid) (resGroups r))
       (blockHandle midpoint
          \<lparr>ctxStudents = map (newStudent Male) [1..9], ctxGroups = [[], [], []],
            ctxConditions =
              [\<lparr>cid = ''same-group'', ctype = ''same-group'', enabled = True,
                 input = ''1,2,3;4,5,6,7,8'', blockInputs = None\<rparr>,
               \<lparr>cid = ''different-group'', ctype = ''different-group'', enabled = True,
                 input = ''1,2,3'', blockInputs = None\<rparr>],
            ctxRemaining = map (newStudent Male) [1..9]\<rparr>)
     = Some [[1, 9], [4, 5, 6, 7, 8], [2, 3]]"
  by code_simp

lemma separation_of_a_pair:
  "map_option (\<lambda>(gs, remaining, processed). map (map sid) gs)
     (assignToDifferentGroups [map (newStudent Male) [1, 2], []] [1, 2]
        (map (newStudent Male) [3, 4]) {})
     = Some [[1], [2]]"
  by code_simp

text \<open>
  C2. For a group count of at least 1 \<open>performGrouping\<close> returns (it does not throw),
  it returns as many groups as asked, and the largest and the smallest of them differ by at
  most one student, whatever conditions are saved. The same holds for the equalizer on any
  list \<open>gs\<close> of \<open>n\<close> groups and any student list, that is whatever the chain
  produced.
\<close>

theorem size_balance:
  "0 < n \<Longrightarrow> fair rs \<Longrightarrow> length gs = n \<Longrightarrow>
     (\<exists>out. performGrouping rs saved n roster = Some out \<and> length out = n
        \<and> Max (set (map length out)) - Min (set (map length out)) \<le> 1)
   \<and> (\<exists>out. forceEqualDistribution rs gs allStudents = Some out \<and> length out = n
        \<and> Max (set (map length out)) - Min (set (map length out)) \<le> 1)"
proof (intro conjI)
  assume n: "0 < n" and rs: "fair rs" and len: "length gs = n"
  from performGrouping_spec[OF n rs, of saved roster] obtain out t where
    "performGrouping rs saved n roster = Some out" "length out = n"
    "\<forall>i<n. length (out ! i) = targetSize (t div n) (t mod n) i" by blast
  with targetSize_spread[OF n this(2,3)]
  show "\<exists>out. performGrouping rs saved n roster = Some out \<and> length out = n
        \<and> Max (set (map length out)) - Min (set (map length out)) \<le> 1" by blast
  from n len have n': "0 < length gs" by simp
  let ?t = "length (studentsToDistribute gs allStudents)"
  from equalizer_spec[OF n' rs, of allStudents] len obtain out' where
    o: "forceEqualDistribution rs gs allStudents = Some out'" "length out' = n"
    "\<forall>i<n. length (out' ! i) = targetSize (?t div n) (?t mod n) i" by auto
  with targetSize_spread[OF n o(2,3)]
  show "\<exists>out. forceEqualDistribution rs gs allStudents = Some out \<and> length out = n
        \<and> Max (set (map length out)) - Min (set (map length out)) \<le> 1" by blast
qed

theorem size_balance_witness:
  "0 < (2::nat) \<and> fair midpoint
   \<and> performGrouping midpoint initialConditions 2 (initializeStudents ''1,3,5'' ''2,4'')
       = Some [[newStudent Male 1, newStudent Female 2, newStudent Male 5],
               [newStudent Male 3, newStudent Female 4]]
   \<and> (\<exists>out. performGrouping midpoint initialConditions 2 (initializeStudents ''1,3,5'' ''2,4'')
          = Some out \<and> length out = 2
        \<and> Max (set (map length out)) - Min (set (map length out)) \<le> 1)
   \<and> (\<exists>out. forceEqualDistribution midpoint [initializeStudents ''1,3,5'' ''2,4'', []] []
          = Some out \<and> length out = 2
        \<and> Max (set (map length out)) - Min (set (map length out)) \<le> 1)"
proof -
  have a: "0 < (2::nat)" by simp
  have c: "length [initializeStudents ''1,3,5'' ''2,4'', []] = 2" by simp
  have v: "performGrouping midpoint initialConditions 2 (initializeStudents ''1,3,5'' ''2,4'')
       = Some [[newStudent Male 1, newStudent Female 2, newStudent Male 5],
               [newStudent Male 3, newStudent Female 4]]" by code_simp
  note t = size_balance[OF a fair_midpoint c, of initialConditions
      "initializeStudents ''1,3,5'' ''2,4''" "[]"]
  from a fair_midpoint v t[THEN conjunct1] t[THEN conjunct2] show ?thesis by (intro conjI)
qed




text \<open>
  C8, as claimed, fails: \<open>performGrouping\<close> has no check of the roster or of the
  group count. With an empty roster it returns the groups, all empty.
\<close>

theorem empty_roster_not_rejected:
  "performGrouping midpoint initialConditions 2 [] = Some [[], []]"
  by code_simp

text \<open>
  C8, amended. With an empty roster and a group count of at least 1 the call succeeds and
  returns that many empty groups. With no group and a roster that is not empty the call
  throws: the equalizer (or a handler before it) reads a group that does not exist; this
  happens before the group list of the service is written.
\<close>

theorem no_structural_validation:
  "fair rs \<Longrightarrow>
     (0 < n \<longrightarrow> performGrouping rs saved n [] = Some (replicate n []))
   \<and> (roster \<noteq> [] \<longrightarrow> performGrouping rs saved 0 roster = None)"
  using performGrouping_no_students[of n rs saved] performGrouping_no_groups[of rs roster saved]
  by blast

theorem no_structural_validation_witness:
  "fair midpoint
   \<and> performGrouping midpoint initialConditions 2 [] = Some (replicate 2 [])
   \<and> performGrouping midpoint initialConditions 0 [newStudent Male 1] = None"
proof -
  note t = no_structural_validation[OF fair_midpoint, of 2 initialConditions "[newStudent Male 1]"]
  have a: "0 < (2::nat)" by simp
  have b: "[newStudent Male 1] \<noteq> []" by simp
  from fair_midpoint t[THEN conjunct1, rule_format, OF a] t[THEN conjunct2, rule_format, OF b]
  show ?thesis by (intro conjI)
qed

text \<open>
  C9, as claimed, fails: after an edit that only appends a blank, \<open>updateBlockInput\<close>
  stores the new string and the new merged input.
\<close>

theorem whitespace_edit_changes_state:
  "trim ''1,2 '' = trim ''1,2''
   \<and> updateBlockInput ''block-distribution'' 0 ''1,2 ''
       \<lparr>savedConditions = initialConditions, editingConditions =
          [\<lparr>cid = ''block-distribution'', ctype = ''block-distribution'', enabled = True,
             input = ''1,2'', blockInputs = Some [Str ''1,2'', Str [], Str []]\<rparr>]\<rparr>
     = Some \<lparr>savedConditions = initialConditions, editingConditions =
          [\<lparr>cid = ''block-distribution'', ctype = ''block-distribution'', enabled = True,
             input = ''1,2 '', blockInputs = Some [Str ''1,2 '', Str [], Str []]\<rparr>]\<rparr>"
  by code_simp

text \<open>
  C9, amended. Let the edited conditions hold strings only, and let \<open>old\<close> be the
  stored string at \<open>blockIndex\<close> of the first condition with the id. Then
  \<open>updateBlockInput\<close> does not throw and never touches the saved conditions, and it
  leaves the state as it is exactly when \<open>value\<close> is \<open>old\<close>, character by character.
  When \<open>value\<close> and \<open>old\<close> differ only in surrounding white space the stored strings
  change, but the blocks that BlockDistributionHandler parses from the condition are the
  same as before (and so parsing a string twice gives the same blocks).
\<close>

theorem updateBlockInput_identical_only:
  assumes wf: "stringSlots (editingConditions st)"
    and sb: "storedBlock k i (editingConditions st) = Str old"
  shows "\<exists>st'. updateBlockInput k i v st = Some st'
     \<and> savedConditions st' = savedConditions st
     \<and> (st' = st \<longleftrightarrow> v = old)
     \<and> (trim v = trim old \<longrightarrow>
          map_option configuredBlocks (find (\<lambda>c. cid c = k) (editingConditions st'))
          = map_option configuredBlocks (find (\<lambda>c. cid c = k) (editingConditions st)))"
proof (cases "v = old")
  case True
  with sb show ?thesis by (simp add: updateBlockInput_def)
next
  case False
  let ?f = "updateCondition k i v"
  let ?P = "\<lambda>c. cid c = k"
  from wf have "\<forall>c \<in> set (editingConditions st). ?f c \<noteq> None"
    unfolding stringSlots_def using updateCondition_total by blast
  from those_map_total[OF this] obtain ys where ys: "those (map ?f (editingConditions st)) = Some ys"
    by blast
  let ?st' = "st\<lparr>editingConditions := ys\<rparr>"
  from False sb ys have u: "updateBlockInput k i v st = Some ?st'"
    by (simp add: updateBlockInput_def)
  from storedBlock_Str[OF sb] obtain c slots where
    c: "find ?P (editingConditions st) = Some c" "cid c = k" "blockInputs c = Some slots"
      "i < length slots" "slots ! i = Str old" by blast
  have "find ?P ys = (case find ?P (editingConditions st) of None \<Rightarrow> None | Some c \<Rightarrow> ?f c)"
    by (rule those_map_find[OF ys]) (simp add: updateCondition_cid)
  with c(1) have fy: "find ?P ys = ?f c" by simp
  from wf c(1) have "c \<in> set (editingConditions st)" by (auto simp: find_Some_iff)
  with wf c(3) have str: "Undef \<notin> set slots" "Hole \<notin> set slots"
    unfolding stringSlots_def by force+
  from updateCondition_total[of c k i v] c(3) str obtain c' where c': "?f c = Some c'" by auto
  from updateCondition_slots[OF c' c(2,3)] c(4) str
  have bi: "blockInputs c' = Some (slots[i := Str v])"
    by (simp add: assignSlot_def spreadSlots_strings)
  have ne: "?st' \<noteq> st"
  proof
    assume "?st' = st"
    then have "editingConditions ?st' = editingConditions st" by simp
    then have "ys = editingConditions st" by simp
    with fy c(1) c' have "c' = c" by simp
    with bi c(3) have "slots[i := Str v] = slots" by simp
    then have "slots[i := Str v] ! i = slots ! i" by simp
    with c(4,5) False show False by simp
  qed
  have cb: "configuredBlocks c' = configuredBlocks c" if t: "trim v = trim old"
  proof -
    have "map blockOf (slots[i := Str v]) = (map blockOf slots)[i := blockOf (Str old)]"
      by (simp add: map_update blockOf_trim_cong[OF t])
    also have "\<dots> = map blockOf slots"
      using list_update_id[of "map blockOf slots" i] c(4,5) by simp
    finally show ?thesis by (simp add: configuredBlocks_blockOf bi c(3))
  qed
  show ?thesis
  proof (intro exI[of _ ?st'] conjI impI)
    show "updateBlockInput k i v st = Some ?st'" by (rule u)
    show "savedConditions ?st' = savedConditions st" by simp
    show "(?st' = st) = (v = old)" using ne False by simp
  next
    assume "trim v = trim old"
    from cb[OF this] show "map_option configuredBlocks (find ?P (editingConditions ?st'))
          = map_option configuredBlocks (find ?P (editingConditions st))"
      by (simp add: fy c' c(1))
  qed
qed

theorem updateBlockInput_identical_only_witness:
  "stringSlots [\<lparr>cid = ''block-distribution'', ctype = ''block-distribution'', enabled = True,
                  input = ''1,2'', blockInputs = Some [Str ''1,2'', Str [], Str []]\<rparr>]
   \<and> storedBlock ''block-distribution'' 0
        [\<lparr>cid = ''block-distribution'', ctype = ''block-distribution'', enabled = True,
           input = ''1,2'', blockInputs = Some [Str ''1,2'', Str [], Str []]\<rparr>] = Str ''1,2''
   \<and> (\<exists>st'. updateBlockInput ''block-distribution'' 0 ''1,2 ''
          \<lparr>savedConditions = initialConditions, editingConditions =
             [\<lparr>cid = ''block-distribution'', ctype = ''block-distribution'', enabled = True,
                input = ''1,2'', blockInputs = Some [Str ''1,2'', Str [], Str []]\<rparr>]\<rparr> = Some st'
        \<and> savedConditions st' = initialConditions
        \<and> st' \<noteq> \<lparr>savedConditions = initialConditions, editingConditions =
             [\<lparr>cid = ''block-distribution'', ctype = ''block-distribution'', enabled = True,
                input = ''1,2'', blockInputs = Some [Str ''1,2'', Str [], Str []]\<rparr>]\<rparr>
        \<and> map_option configuredBlocks
              (find (\<lambda>c. cid c = ''block-distribution'') (editingConditions st'))
            = Some [[1, 2]])"
proof -
  let ?c = "\<lparr>cid = ''block-distribution'', ctype = ''block-distribution'', enabled = True,
             input = ''1,2'', blockInputs = Some [Str ''1,2'', Str [], Str []]\<rparr>"
  let ?st = "\<lparr>savedConditions = initialConditions, editingConditions = [?c]\<rparr>"
  have a: "stringSlots (editingConditions ?st)" by code_simp
  have b: "storedBlock ''block-distribution'' 0 (editingConditions ?st) = Str ''1,2''"
    by code_simp
  have t: "trim ''1,2 '' = trim ''1,2''" by code_simp
  have ne: "''1,2 '' \<noteq> ''1,2''" by simp
  have cb: "map_option configuredBlocks
       (find (\<lambda>c. cid c = ''block-distribution'') (editingConditions ?st)) = Some [[1, 2]]"
    by code_simp
  from updateBlockInput_identical_only[OF a b, of "''1,2 ''"] obtain st' where
    s: "updateBlockInput ''block-distribution'' 0 ''1,2 '' ?st = Some st'"
      "savedConditions st' = savedConditions ?st" "(st' = ?st) = (''1,2 '' = ''1,2'')"
      "trim ''1,2 '' = trim ''1,2'' \<longrightarrow>
        map_option configuredBlocks
          (find (\<lambda>c. cid c = ''block-distribution'') (editingConditions st'))
        = map_option configuredBlocks
          (find (\<lambda>c. cid c = ''block-distribution'') (editingConditions ?st))"
    by blast
  from s(2) have s2: "savedConditions st' = initialConditions" by simp
  from s(3) ne have s3: "st' \<noteq> ?st" by simp
  from s(4) t cb have s4: "map_option configuredBlocks
          (find (\<lambda>c. cid c = ''block-distribution'') (editingConditions st')) = Some [[1, 2]]"
    by simp
  from s(1) s2 s3 s4 have "\<exists>st'. updateBlockInput ''block-distribution'' 0 ''1,2 '' ?st = Some st'
        \<and> savedConditions st' = initialConditions \<and> st' \<noteq> ?st
        \<and> map_option configuredBlocks
              (find (\<lambda>c. cid c = ''block-distribution'') (editingConditions st'))
            = Some [[1, 2]]" by blast
  moreover from a have "stringSlots [?c]" by simp
  moreover from b have "storedBlock ''block-distribution'' 0 [?c] = Str ''1,2''" by simp
  ultimately show ?thesis by (intro conjI)
qed






end
